theory Spec2Isabelle
  imports Main "HOL-Library.Sublist"
begin

section \<open>Strings\<close>

text \<open>
  A JavaScript string is modelled as a \<^typ>\<open>string\<close>: each \<^typ>\<open>char\<close> stands for one
  UTF-16 code unit below 256.  Within that range the white space of \<open>String.prototype.trim\<close>
  and of the regular-expression class \<open>\s\<close> is TAB, LF, VT, FF, CR, SPACE and NBSP; the
  line terminators that \<open>.\<close> refuses are LF and CR; \<open>\d\<close> is the ASCII digits.
\<close>

definition is_space :: "char \<Rightarrow> bool" where
  "is_space c \<longleftrightarrow> c \<in> set [CHR 0x09, CHR 0x0A, CHR 0x0B, CHR 0x0C, CHR 0x0D, CHR 0x20, CHR 0xA0]"

definition is_line_terminator :: "char \<Rightarrow> bool" where
  "is_line_terminator c \<longleftrightarrow> c \<in> set [CHR 0x0A, CHR 0x0D]"

definition is_digit :: "char \<Rightarrow> bool" where
  "is_digit c \<longleftrightarrow> c \<in> set ''0123456789''"

text \<open>\<open>s.trim()\<close>\<close>

definition trim :: "string \<Rightarrow> string" where
  "trim s = rev (dropWhile is_space (rev (dropWhile is_space s)))"

text \<open>\<open>String(x ?? "")\<close> for a value that is a string or is missing (\<open>undefined\<close>, \<open>null\<close>).\<close>

definition str :: "string option \<Rightarrow> string" where
  "str x = (case x of None \<Rightarrow> [] | Some s \<Rightarrow> s)"

section \<open>Current-level state and messaging\<close>

text \<open>
  A socket payload.  A field that the sender left out is \<open>None\<close>.  The payloads on the
  legacy per-event channels carry no \<open>type\<close>; the listener adds it.
\<close>

record msg =
  mtype :: "string option"
  requestId :: "string option"
  elevatorId :: "string option"
  regionUuid :: "string option"
  requester :: "string option"
  toUserId :: "string option"
  fromUserId :: "string option"

definition no_msg :: msg where
  "no_msg = \<lparr>mtype = None, requestId = None, elevatorId = None, regionUuid = None,
     requester = None, toUserId = None, fromUserId = None\<rparr>"

definition SOCKET_CHANNEL :: string where
  "SOCKET_CHANNEL = ''module.elevator''"

definition LEGACY_setCurrentLevel :: string where
  "LEGACY_setCurrentLevel = SOCKET_CHANNEL @ ''.setCurrentLevel''"

definition LEGACY_getCurrentLevel :: string where
  "LEGACY_getCurrentLevel = SOCKET_CHANNEL @ ''.getCurrentLevel''"

definition LEGACY_currentLevelChanged :: string where
  "LEGACY_currentLevelChanged = SOCKET_CHANNEL @ ''.currentLevelChanged''"

text \<open>
  The state of one client process: who runs it (\<open>game.user\<close>), the optimistic cache
  \<open>CLIENT_STATE.currentLevelByElevatorId\<close>, the world setting \<open>currentLevelByElevatorId\<close>,
  the keys of \<open>_rerenderTimersByElevId\<close> (a pending timer per elevator id), the map
  \<open>_SEEN_SOCKET_IDS\<close> from request id to the time it was first seen, what
  \<open>game.socket.emit\<close> has sent (channel and payload, oldest first) and the notifications
  shown by \<open>ui.notifications\<close>.  Console logging is not part of the state.

  The cache and the world setting are plain objects, not \<open>Map\<close>s.  Each is modelled by
  the map of its own properties, and the two operations the code uses on them are written
  out below: an assignment \<open>obj[k] = v\<close> and a read \<open>String(obj[k] || "")\<close>, both of which
  go through \<open>Object.prototype\<close> where the object has no own property \<open>k\<close>.
\<close>

record client =
  isGM :: bool
  userId :: "string option"
  cache :: "string \<rightharpoonup> string"
  store :: "string \<rightharpoonup> string"
  timers :: "string set"
  seen :: "string \<rightharpoonup> int"
  outbox :: "(string \<times> msg) list"
  notifications :: "string list"

text \<open>
  \<open>obj[k] = v\<close> for a string \<open>v\<close>.  An own property is overwritten.  Without one, the key
  \<open>__proto__\<close> reaches the accessor of \<open>Object.prototype\<close>, whose setter ignores a value that
  is not an object, so nothing is stored; every other key gets a new own property (the
  inherited properties of \<open>Object.prototype\<close> are writable data properties).
\<close>

definition obj_set :: "(string \<rightharpoonup> string) \<Rightarrow> string \<Rightarrow> string \<Rightarrow> (string \<rightharpoonup> string)" where
  "obj_set obj k v = (if k = ''__proto__'' \<and> obj k = None then obj else obj(k \<mapsto> v))"

text \<open>
  \<open>String(Object.prototype[k])\<close> for the keys that \<open>Object.prototype\<close> has: the prototype
  object itself under \<open>__proto__\<close>, and a native function under each of the others.
\<close>

definition inherited_text :: "string \<Rightarrow> string option" where
  "inherited_text k =
     (if k = ''__proto__'' then Some ''[object Object]''
      else if k = ''constructor'' then Some ''function Object() { [native code] }''
      else if k \<in> set [''hasOwnProperty'', ''isPrototypeOf'', ''propertyIsEnumerable'',
                        ''toLocaleString'', ''toString'', ''valueOf'', ''__defineGetter__'',
                        ''__defineSetter__'', ''__lookupGetter__'', ''__lookupSetter__'']
        then Some (''function '' @ k @ ''() { [native code] }'')
      else None)"

text \<open>\<open>String(obj[k] || "")\<close>\<close>

definition obj_get_text :: "(string \<rightharpoonup> string) \<Rightarrow> string \<Rightarrow> string" where
  "obj_get_text obj k =
     (case obj k of
        Some v \<Rightarrow> v
      | None \<Rightarrow> (case inherited_text k of Some t \<Rightarrow> t | None \<Rightarrow> []))"

definition emit :: "string \<Rightarrow> msg \<Rightarrow> client \<Rightarrow> client" where
  "emit channel payload c = c\<lparr>outbox := outbox c @ [(channel, payload)]\<rparr>"

definition queueRerenderOpenElevatorPanels :: "string \<Rightarrow> client \<Rightarrow> client" where
  "queueRerenderOpenElevatorPanels elevatorId' c =
     (let elevId = trim elevatorId' in
      if elevId = [] then c else c\<lparr>timers := insert elevId (timers c)\<rparr>)"

text \<open>
  \<open>requestSetCurrentLevel\<close>; the first argument is what \<open>makeRequestId()\<close> returns.
\<close>

definition requestSetCurrentLevel ::
  "string \<Rightarrow> string option \<Rightarrow> string option \<Rightarrow> client \<Rightarrow> client" where
  "requestSetCurrentLevel rid elevatorId' regionUuid' c =
     (let elevId = trim (str elevatorId'); uuid = trim (str regionUuid') in
      if elevId = [] \<or> uuid = [] then c
      else
        let c1 = c\<lparr>cache := obj_set (cache c) elevId uuid\<rparr>;
            c2 = queueRerenderOpenElevatorPanels elevId c1
        in if isGM c2 then
             let c3 = c2\<lparr>store := obj_set (store c2) elevId uuid\<rparr>;
                 c4 = emit SOCKET_CHANNEL
                        (no_msg\<lparr>mtype := Some ''currentLevelChanged'', requestId := Some rid,
                           elevatorId := Some elevId, regionUuid := Some uuid\<rparr>) c3
             in emit LEGACY_currentLevelChanged
                  (no_msg\<lparr>requestId := Some rid, elevatorId := Some elevId,
                     regionUuid := Some uuid\<rparr>) c4
           else
             let c3 = emit SOCKET_CHANNEL
                        (no_msg\<lparr>mtype := Some ''setCurrentLevel'', requestId := Some rid,
                           elevatorId := Some elevId, regionUuid := Some uuid,
                           requester := userId c2\<rparr>) c2
             in emit LEGACY_setCurrentLevel
                  (no_msg\<lparr>requestId := Some rid, elevatorId := Some elevId,
                     regionUuid := Some uuid, requester := userId c2\<rparr>) c3)"

text \<open>
  \<open>wasSocketRequestSeen(requestId)\<close> at clock reading \<open>now\<close> (\<open>Date.now()\<close>, in
  milliseconds), with the default window of 8000 ms.  It returns its answer and the new
  \<open>_SEEN_SOCKET_IDS\<close>.
\<close>

definition expire :: "int \<Rightarrow> int \<Rightarrow> (string \<rightharpoonup> int) \<Rightarrow> (string \<rightharpoonup> int)" where
  "expire windowMs now m =
     (\<lambda>k. case m k of None \<Rightarrow> None
          | Some ts \<Rightarrow> if now - ts > windowMs then None else Some ts)"

definition wasSocketRequestSeen ::
  "int \<Rightarrow> string option \<Rightarrow> (string \<rightharpoonup> int) \<Rightarrow> bool \<times> (string \<rightharpoonup> int)" where
  "wasSocketRequestSeen now requestId' m =
     (let id = trim (str requestId') in
      if id = [] then (False, m)
      else
        let m1 = expire 8000 now m in
        if m1 id \<noteq> None then (True, m1) else (False, m1(id \<mapsto> now)))"

text \<open>
  The branches of \<open>handleSocketMessage\<close> after the de-duplication gate, by message type.
  \<open>fresh\<close> is what \<open>makeRequestId()\<close> would return if the branch calls it.
\<close>

definition on_socketPing :: "msg \<Rightarrow> client \<Rightarrow> client" where
  "on_socketPing data c =
     (if \<not> isGM c then c
      else emit SOCKET_CHANNEL
             (no_msg\<lparr>mtype := Some ''socketPong'', requestId := requestId data,
                toUserId := fromUserId data, fromUserId := userId c\<rparr>) c)"

definition on_socketPong :: "msg \<Rightarrow> client \<Rightarrow> client" where
  "on_socketPong data c =
     (if str (toUserId data) \<noteq> str (userId c) then c
      else c\<lparr>notifications := notifications c @ [''Elevator: GM socket response received (debug)'']\<rparr>)"

definition request_id_or :: "string \<Rightarrow> msg \<Rightarrow> string" where
  "request_id_or fresh data =
     (let r = trim (str (requestId data)) in if r = [] then fresh else r)"

definition on_setCurrentLevel :: "string \<Rightarrow> msg \<Rightarrow> client \<Rightarrow> client" where
  "on_setCurrentLevel fresh data c =
     (if \<not> isGM c then c
      else
        let elevId = trim (str (elevatorId data)); uuid = trim (str (regionUuid data)) in
        if elevId = [] \<or> uuid = [] then c
        else
          let c1 = c\<lparr>store := obj_set (store c) elevId uuid\<rparr>;
              rid = request_id_or fresh data;
              c2 = emit SOCKET_CHANNEL
                     (no_msg\<lparr>mtype := Some ''currentLevelChanged'', requestId := Some rid,
                        elevatorId := Some elevId, regionUuid := Some uuid\<rparr>) c1
          in emit LEGACY_currentLevelChanged
               (no_msg\<lparr>requestId := Some rid, elevatorId := Some elevId,
                  regionUuid := Some uuid\<rparr>) c2)"

definition on_getCurrentLevel :: "string \<Rightarrow> msg \<Rightarrow> client \<Rightarrow> client" where
  "on_getCurrentLevel fresh data c =
     (if \<not> isGM c then c
      else
        let elevId = trim (str (elevatorId data)) in
        if elevId = [] then c
        else
          let uuid = trim (obj_get_text (store c) elevId) in
          if uuid = [] then c
          else
            let rid = request_id_or fresh data;
                c1 = emit SOCKET_CHANNEL
                       (no_msg\<lparr>mtype := Some ''currentLevelChanged'', requestId := Some rid,
                          elevatorId := Some elevId, regionUuid := Some uuid\<rparr>) c
            in emit LEGACY_currentLevelChanged
                 (no_msg\<lparr>requestId := Some rid, elevatorId := Some elevId,
                    regionUuid := Some uuid\<rparr>) c1)"

definition on_currentLevelChanged :: "msg \<Rightarrow> client \<Rightarrow> client" where
  "on_currentLevelChanged data c =
     (let elevId = trim (str (elevatorId data)); uuid = trim (str (regionUuid data)) in
      if elevId = [] \<or> uuid = [] then c
      else queueRerenderOpenElevatorPanels elevId (c\<lparr>cache := obj_set (cache c) elevId uuid\<rparr>))"

definition dispatch :: "string \<Rightarrow> string \<Rightarrow> msg \<Rightarrow> client \<Rightarrow> client" where
  "dispatch fresh type data c =
     (if type = ''socketPing'' then on_socketPing data c
      else if type = ''socketPong'' then on_socketPong data c
      else if type = ''setCurrentLevel'' then on_setCurrentLevel fresh data c
      else if type = ''getCurrentLevel'' then on_getCurrentLevel fresh data c
      else if type = ''currentLevelChanged'' then on_currentLevelChanged data c
      else c)"

definition handleSocketMessage :: "string \<Rightarrow> int \<Rightarrow> msg \<Rightarrow> client \<Rightarrow> client" where
  "handleSocketMessage fresh now data c =
     (let type = trim (str (mtype data)) in
      if type = [] then c
      else
        case wasSocketRequestSeen now (requestId data) (seen c) of
          (True, m) \<Rightarrow> c\<lparr>seen := m\<rparr>
        | (False, m) \<Rightarrow> dispatch fresh type data (c\<lparr>seen := m\<rparr>))"

text \<open>
  What \<open>registerSocket\<close> subscribes: the unified channel hands the payload to the handler as
  it is, a legacy channel first sets the type of its event.
\<close>

definition on_channel :: "string \<Rightarrow> string \<Rightarrow> int \<Rightarrow> msg \<Rightarrow> client \<Rightarrow> client" where
  "on_channel channel fresh now payload c =
     (if channel = SOCKET_CHANNEL then handleSocketMessage fresh now payload c
      else if channel = LEGACY_setCurrentLevel
        then handleSocketMessage fresh now (payload\<lparr>mtype := Some ''setCurrentLevel''\<rparr>) c
      else if channel = LEGACY_getCurrentLevel
        then handleSocketMessage fresh now (payload\<lparr>mtype := Some ''getCurrentLevel''\<rparr>) c
      else if channel = LEGACY_currentLevelChanged
        then handleSocketMessage fresh now (payload\<lparr>mtype := Some ''currentLevelChanged''\<rparr>) c
      else c)"

text \<open>A run of deliveries to one client, each with its clock reading.\<close>

fun deliver :: "(string \<times> int \<times> msg) list \<Rightarrow> client \<Rightarrow> client" where
  "deliver [] c = c"
| "deliver ((fresh, now, data) # rest) c = deliver rest (handleSocketMessage fresh now data c)"

subsection \<open>Example clients and messages\<close>

definition gm0 :: client where
  "gm0 = \<lparr>isGM = True, userId = Some ''gm'', cache = Map.empty, store = Map.empty,
     timers = {}, seen = Map.empty, outbox = [], notifications = []\<rparr>"

definition player0 :: client where
  "player0 = \<lparr>isGM = False, userId = Some ''p1'', cache = Map.empty, store = Map.empty,
     timers = {}, seen = Map.empty, outbox = [], notifications = []\<rparr>"

definition changed_msg :: "string \<Rightarrow> msg" where
  "changed_msg rid = no_msg\<lparr>mtype := Some ''currentLevelChanged'', requestId := Some rid,
     elevatorId := Some ''elev1'', regionUuid := Some ''stopB''\<rparr>"

definition proto_msg :: msg where
  "proto_msg = no_msg\<lparr>mtype := Some ''currentLevelChanged'', requestId := Some ''r7'',
     elevatorId := Some ''__proto__'', regionUuid := Some ''stopB''\<rparr>"

definition set_msg :: msg where
  "set_msg = no_msg\<lparr>mtype := Some ''setCurrentLevel'', requestId := Some ''r1'',
     elevatorId := Some ''elev1'', regionUuid := Some ''stopB'', requester := Some ''p1''\<rparr>"

definition set_msg_legacy :: msg where
  "set_msg_legacy = no_msg\<lparr>requestId := Some ''r1'',
     elevatorId := Some ''elev1'', regionUuid := Some ''stopB'', requester := Some ''p1''\<rparr>"

section \<open>Approval routing\<close>

text \<open>
  A user of \<open>game.users\<close>, and an actor: its ownership table, from user id (or the key
  \<open>default\<close>) to ownership level, and the host's \<open>testUserPermission(user, level)\<close> when
  the actor object has that method.  \<open>game.users\<close> is a list of users in iteration order;
  \<open>game.users.get(id)\<close> is the user with that id.  The ownership table is a plain object
  read at user ids; the host's ids are sixteen letters and digits, none of them a key of
  \<open>Object.prototype\<close>, so a read is a read of an own property.
\<close>

record user =
  uid :: string
  user_isGM :: bool
  active :: bool

record actor =
  ownership :: "string \<rightharpoonup> int"
  testUserPermission :: "(string \<Rightarrow> int \<Rightarrow> bool) option"

record token =
  token_actor :: "actor option"

definition OWNER :: int where
  "OWNER = 3"

definition users_get :: "user list \<Rightarrow> string \<Rightarrow> user option" where
  "users_get users i = find (\<lambda>u. uid u = i) users"

definition ownership_level :: "actor \<Rightarrow> string \<Rightarrow> int" where
  "ownership_level a i =
     (case ownership a i of Some l \<Rightarrow> l
      | None \<Rightarrow> (case ownership a ''default'' of Some l \<Rightarrow> l | None \<Rightarrow> 0))"

definition getActorOwnerUserIds :: "user list \<Rightarrow> actor option \<Rightarrow> string list" where
  "getActorOwnerUserIds users actorDoc =
     (case actorDoc of None \<Rightarrow> []
      | Some a \<Rightarrow> map uid (filter (\<lambda>u. ownership_level a (uid u) \<ge> OWNER) users))"

definition getGMUserIds :: "user list \<Rightarrow> bool \<Rightarrow> string list" where
  "getGMUserIds users onlineOnly =
     map uid (filter (\<lambda>u. user_isGM u \<and> (\<not> onlineOnly \<or> active u)) users)"

definition computeApprovalRecipientsForToken :: "user list \<Rightarrow> token \<Rightarrow> string list \<times> string" where
  "computeApprovalRecipientsForToken users tokenDoc =
     (let ownerIds = getActorOwnerUserIds users (token_actor tokenDoc);
          onlineOwnerIds =
            filter (\<lambda>i. case users_get users i of Some u \<Rightarrow> active u | None \<Rightarrow> False) ownerIds;
          onlineNonGmOwners =
            filter (\<lambda>i. \<not> (case users_get users i of Some u \<Rightarrow> user_isGM u | None \<Rightarrow> False))
              onlineOwnerIds
      in if onlineNonGmOwners \<noteq> [] then (onlineNonGmOwners, ''owner'')
         else
           let onlineGms = getGMUserIds users True in
           if onlineGms \<noteq> [] then (onlineGms, ''gm'')
           else (getGMUserIds users False, ''gm''))"

text \<open>The claim's words: who owns a token's actor, who is online, who is the authority.\<close>

definition owns :: "token \<Rightarrow> user \<Rightarrow> bool" where
  "owns t u \<longleftrightarrow> (case token_actor t of None \<Rightarrow> False
                 | Some a \<Rightarrow> ownership_level a (uid u) \<ge> OWNER)"

definition owner1 :: user where
  "owner1 = \<lparr>uid = ''alice'', user_isGM = False, active = True\<rparr>"

definition gm1 :: user where
  "gm1 = \<lparr>uid = ''gm'', user_isGM = True, active = False\<rparr>"

definition alice_token :: token where
  "alice_token = \<lparr>token_actor = Some \<lparr>ownership = [''alice'' \<mapsto> 3, ''default'' \<mapsto> 0],
     testUserPermission = None\<rparr>\<rparr>"

section \<open>Approval execution\<close>

text \<open>
  The \<open>teleportRequest\<close> payload attached to an approval chat card.
\<close>

record payload =
  destUUID :: "string option"
  tokenUUIDs :: "string list option"
  sourceRegionUuid :: "string option"
  sceneFromId :: "string option"
  p_elevatorId :: "string option"
  p_requester :: "string option"

text \<open>
  What the host answers while the approve handler runs: whether \<open>fromUuid(destUUID)\<close> is a
  \<open>RegionDocument\<close> and has a \<open>teleportToken\<close> method; the token document behind a token
  uuid (\<open>None\<close> when \<open>fromUuid\<close> yields nothing or throws); whether \<open>teleportToken\<close> succeeds
  on the token document, whether the token has a canvas object and whether \<open>teleportToken\<close>
  succeeds on that; and the token documents of the source scene whose centre lies inside
  the source region (\<open>None\<close> when the scene or the region does not resolve).
\<close>

record host =
  game_users :: "user list"
  dest_is_region :: bool
  dest_has_teleportToken :: bool
  token_at :: "string \<Rightarrow> token option"
  teleport_doc_ok :: "string \<Rightarrow> bool"
  has_object :: "string \<Rightarrow> bool"
  teleport_obj_ok :: "string \<Rightarrow> bool"
  inside_source :: "(string \<times> token) list option"

text \<open>
  What the handler acts on: the clicking client, the tokens moved so far, the whispers
  created (content key and recipients) and whether the approval card has been deleted.
\<close>

record session =
  s_client :: client
  moved :: "string list"
  whispers :: "(string \<times> string list) list"
  card_deleted :: bool

definition isTokenOwnedByUser :: "user list \<Rightarrow> token \<Rightarrow> string option \<Rightarrow> bool" where
  "isTokenOwnedByUser us tokenDoc userId' =
     (let i = trim (str userId') in
      case (if i = [] then None else users_get us i) of
        None \<Rightarrow> False
      | Some u \<Rightarrow>
          (case token_actor tokenDoc of
             None \<Rightarrow> False
           | Some a \<Rightarrow>
               (case testUserPermission a of
                  Some test \<Rightarrow> test (uid u) OWNER
                | None \<Rightarrow> ownership_level a i \<ge> OWNER)))"

text \<open>
  \<open>gmTeleportTokenToRegion(dest, tokenUuid)\<close>: \<open>True\<close> when it returns, \<open>False\<close> when it
  throws.  It returns without moving anything when the uuid resolves to nothing.
\<close>

definition gmTeleportTokenToRegion :: "host \<Rightarrow> string \<Rightarrow> bool \<times> bool" where
  "gmTeleportTokenToRegion h tokenUuid =
     (case token_at h tokenUuid of
        None \<Rightarrow> (True, False)
      | Some _ \<Rightarrow>
          if \<not> dest_has_teleportToken h then (False, False)
          else if teleport_doc_ok h tokenUuid then (True, True)
          else if has_object h tokenUuid \<and> teleport_obj_ok h tokenUuid then (True, True)
          else (False, False))"

text \<open>
  The loop over the candidate tokens: it returns \<open>approvedTokenUUIDs\<close> and the tokens that
  the movement primitive has moved.
\<close>

fun approve_tokens ::
  "host \<Rightarrow> bool \<Rightarrow> string option \<Rightarrow> string list \<Rightarrow> string list \<times> string list" where
  "approve_tokens h gm approverId [] = ([], [])"
| "approve_tokens h gm approverId (tUUID # rest) =
     (let (approved, mv) = approve_tokens h gm approverId rest in
      case token_at h tUUID of
        None \<Rightarrow> (approved, mv)
      | Some tokenDoc \<Rightarrow>
          if \<not> gm \<and> \<not> isTokenOwnedByUser (game_users h) tokenDoc approverId then (approved, mv)
          else
            (case gmTeleportTokenToRegion h tUUID of
               (True, did) \<Rightarrow> (tUUID # approved, if did then tUUID # mv else mv)
             | (False, _) \<Rightarrow> (approved, mv)))"

definition truthy :: "string option \<Rightarrow> bool" where
  "truthy x \<longleftrightarrow> str x \<noteq> []"

definition candidate_tokens :: "host \<Rightarrow> payload \<Rightarrow> string list" where
  "candidate_tokens h p =
     (let listed = (case tokenUUIDs p of None \<Rightarrow> [] | Some l \<Rightarrow> filter (\<lambda>t. t \<noteq> []) l) in
      if listed = [] \<and> truthy (sourceRegionUuid p) \<and> truthy (sceneFromId p) then
        (case inside_source h of
           None \<Rightarrow> listed
         | Some inside \<Rightarrow>
             map fst (filter (\<lambda>(_, td). \<not> isTokenOwnedByUser (game_users h) td (p_requester p)) inside))
      else listed)"

text \<open>
  The click handler of the approve button; \<open>rid\<close> is what \<open>makeRequestId()\<close> returns inside
  \<open>requestSetCurrentLevel\<close>.
\<close>

definition approve_click :: "host \<Rightarrow> string \<Rightarrow> payload \<Rightarrow> session \<Rightarrow> session" where
  "approve_click h rid p s =
     (if \<not> dest_is_region h then s
      else
        let c = s_client s;
            (approved, mv) = approve_tokens h (isGM c) (userId c) (candidate_tokens h p);
            s1 = s\<lparr>moved := moved s @ mv\<rparr>
        in if approved = [] then
             s1\<lparr>s_client := c\<lparr>notifications :=
                   notifications c @ [''elevator.warn.noTokensApprovable'']\<rparr>\<rparr>
           else
             let elevId = trim (str (p_elevatorId p));
                 s2 = (if elevId = [] then s1
                       else s1\<lparr>s_client := requestSetCurrentLevel rid (Some elevId) (destUUID p) c\<rparr>);
                 requesterId = trim (str (p_requester p));
                 s3 = (if requesterId = [] then s2
                       else s2\<lparr>whispers := whispers s2
                               @ [(''elevator.info.approvalGranted'', [requesterId])]\<rparr>)
             in s3\<lparr>card_deleted := True\<rparr>)"

definition deny_click :: "session \<Rightarrow> session" where
  "deny_click s = s\<lparr>card_deleted := True\<rparr>"






section \<open>Region names\<close>

text \<open>
  A backtracking match of a regular expression at the start of a string is the list of
  the remainders it can leave, in the order in which the engine tries them; the engine
  takes the first.  A literal and a character class leave at most one remainder; a greedy
  \<open>+\<close> over a class tries the longest run first, a lazy \<open>+?\<close> the shortest first; a
  sequence tries, for each remainder of its first part in order, the remainders of the rest.
\<close>

definition rx_lit :: "string \<Rightarrow> string \<Rightarrow> string list" where
  "rx_lit p s = (if prefix p s then [drop (length p) s] else [])"

fun rx_class :: "(char \<Rightarrow> bool) \<Rightarrow> string \<Rightarrow> string list" where
  "rx_class P [] = []"
| "rx_class P (c # cs) = (if P c then [cs] else [])"

fun rx_plus_greedy :: "(char \<Rightarrow> bool) \<Rightarrow> string \<Rightarrow> string list" where
  "rx_plus_greedy P [] = []"
| "rx_plus_greedy P (c # cs) = (if P c then rx_plus_greedy P cs @ [cs] else [])"

fun rx_plus_lazy :: "(char \<Rightarrow> bool) \<Rightarrow> string \<Rightarrow> string list" where
  "rx_plus_lazy P [] = []"
| "rx_plus_lazy P (c # cs) = (if P c then cs # rx_plus_lazy P cs else [])"

definition rx_then :: "string list \<Rightarrow> (string \<Rightarrow> string list) \<Rightarrow> string list" where
  "rx_then rs rest = concat (map rest rs)"

text \<open>
  The pattern \<open>/^ELV\s+.+?\s+\d{2}\s+/\<close>, built from its end: \<open>\d{2}\s+\<close>, then
  \<open>\s+\d{2}\s+\<close>, then \<open>.+?\s+\d{2}\s+\<close>, then the whole.
\<close>

definition rx_floor :: "string \<Rightarrow> string list" where
  "rx_floor s = rx_then (rx_then (rx_class is_digit s) (rx_class is_digit)) (rx_plus_greedy is_space)"

definition rx_gap_floor :: "string \<Rightarrow> string list" where
  "rx_gap_floor s = rx_then (rx_plus_greedy is_space s) rx_floor"

definition rx_id_gap_floor :: "string \<Rightarrow> string list" where
  "rx_id_gap_floor s = rx_then (rx_plus_lazy (\<lambda>c. \<not> is_line_terminator c) s) rx_gap_floor"

definition rx_elv_prefix :: "string \<Rightarrow> string list" where
  "rx_elv_prefix s = rx_then (rx_then (rx_lit ''ELV'' s) (rx_plus_greedy is_space)) rx_id_gap_floor"

text \<open>\<open>s.replace(/^ELV\s+.+?\s+\d{2}\s+/, "")\<close>\<close>

definition replace_elv_prefix :: "string \<Rightarrow> string" where
  "replace_elv_prefix s = (case rx_elv_prefix s of [] \<Rightarrow> s | r # _ \<Rightarrow> r)"

definition stripElevatorNamePrefix :: "string \<Rightarrow> string" where
  "stripElevatorNamePrefix name =
     (let s = trim name in
      if \<not> prefix ''ELV '' s then s
      else
        let stripped = trim (replace_elv_prefix s) in
        if stripped = [] then s else stripped)"

text \<open>\<open>String(n)\<close> for a natural number, and \<open>padStart(2, "0")\<close>.\<close>

definition digit_char :: "nat \<Rightarrow> char" where
  "digit_char d = ''0123456789'' ! d"

function decimal :: "nat \<Rightarrow> string" where
  "decimal n = (if n < 10 then [digit_char n] else decimal (n div 10) @ [digit_char (n mod 10)])"
  by pat_completeness auto

termination
  by (relation "measure id") auto

declare decimal.simps [simp del]

definition padStart2 :: "string \<Rightarrow> string" where
  "padStart2 s = replicate (2 - length s) (CHR ''0'') @ s"

text \<open>
  \<open>formatElevatorRegionName\<close>, for an integer floor number: \<open>Number(floorNumber) || 1\<close> is
  the number itself unless it is zero.
\<close>

definition formatElevatorRegionName :: "string \<Rightarrow> int \<Rightarrow> string \<Rightarrow> string" where
  "formatElevatorRegionName elevatorId' floorNumber label' =
     (let id = trim elevatorId';
          num = padStart2 (decimal (nat (max 1 (if floorNumber = 0 then 1 else floorNumber))));
          lbl = stripElevatorNamePrefix (trim label')
      in trim (''ELV '' @ id @ '' '' @ num @ '' '' @ lbl))"

text \<open>The white-space separated segments of a string, and a segment that is two digits.\<close>

function segments :: "string \<Rightarrow> string list" where
  "segments [] = []"
| "segments (c # cs) =
     (if is_space c then segments cs
      else takeWhile (\<lambda>x. \<not> is_space x) (c # cs) # segments (dropWhile (\<lambda>x. \<not> is_space x) cs))"
  by pat_completeness auto

termination
  by (relation "measure length") (auto simp: length_dropWhile_le less_Suc_eq_le)

definition two_digit :: "string \<Rightarrow> bool" where
  "two_digit w \<longleftrightarrow> length w = 2 \<and> list_all is_digit w"

section \<open>Elevator networks\<close>

text \<open>
  A stop of a network (\<open>{uuid, label}\<close>; a field that is missing reads as the empty
  string), the registry entry of one elevator in the world setting \<open>elevatorLinksById\<close>
  (an unset \<open>homeUuid\<close> is the empty string), a region behaviour, the module's flags on a
  region (with the keys the sync engine does not own kept in \<open>f_other\<close>), and a region
  document.  \<open>fromUuid\<close> is a map from uuid to document; distinct uuids name distinct
  documents.
\<close>

record stop =
  s_uuid :: string
  s_label :: string

record master =
  m_stops :: "stop list"
  m_homeUuid :: string
  m_theme :: "string option"
  m_iconSrc :: "string option"
  m_iconSize :: "int option"
  m_iconAlwaysOn :: bool

record behavior =
  b_type :: string
  b_destination :: string

record flags =
  f_enabled :: bool
  f_elevatorId :: string
  f_isElevatorHere :: bool
  f_theme :: "string option"
  f_iconSrc :: "string option"
  f_iconSize :: "int option"
  f_iconAlwaysOn :: bool
  f_levels :: "stop list"
  f_returnTo :: "stop option"
  f_other :: "(string \<times> string) list"

record region =
  r_name :: string
  r_flags :: "flags option"
  r_behaviors :: "behavior list"

datatype document = RegionDocument region | OtherDocument

record world =
  links :: "string \<rightharpoonup> master"
  docs :: "string \<rightharpoonup> document"

text \<open>
  What a run writes: the registry (\<open>setElevatorLinksById\<close>, with the elevator id and its new
  stop list), a region document (\<open>doc.update\<close>, with the flags and, when it is part of the
  update, the name) and a behaviour (\<open>behavior.update\<close>, with the region's uuid, the
  behaviour's position and the new destination).
\<close>

datatype action =
    WriteLinks string "stop list"
  | UpdateDocument string flags "string option"
  | UpdateBehavior string nat string

fun normalize_from :: "string set \<Rightarrow> stop list \<Rightarrow> stop list" where
  "normalize_from seen' [] = []"
| "normalize_from seen' (s # rest) =
     (let u = trim (s_uuid s) in
      if u = [] \<or> u \<in> seen' then normalize_from seen' rest
      else \<lparr>s_uuid = u, s_label = stripElevatorNamePrefix (trim (s_label s))\<rparr>
             # normalize_from (insert u seen') rest)"

definition normalizeStops :: "stop list \<Rightarrow> stop list" where
  "normalizeStops stops = normalize_from {} stops"

text \<open>The entries \<open>{doc, uuid, label}\<close> of \<open>resolved\<close>.\<close>

record resolved =
  v_doc :: region
  v_uuid :: string
  v_label :: string

fun resolve_stops :: "(string \<rightharpoonup> document) \<Rightarrow> stop list \<Rightarrow> resolved list" where
  "resolve_stops ds [] = []"
| "resolve_stops ds (s # rest) =
     (case ds (s_uuid s) of
        Some (RegionDocument d) \<Rightarrow>
          \<lparr>v_doc = d, v_uuid = s_uuid s,
           v_label = (if s_label s \<noteq> [] then s_label s else r_name d)\<rparr> # resolve_stops ds rest
      | _ \<Rightarrow> resolve_stops ds rest)"

definition cleaned_of :: "resolved list \<Rightarrow> stop list" where
  "cleaned_of rs = map (\<lambda>r. \<lparr>s_uuid = v_uuid r, s_label = v_label r\<rparr>) rs"

text \<open>\<open>Array.prototype.findIndex\<close>: the first position that satisfies, or \<open>-1\<close>.\<close>

fun findIndex :: "('a \<Rightarrow> bool) \<Rightarrow> 'a list \<Rightarrow> int" where
  "findIndex P [] = -1"
| "findIndex P (x # xs) =
     (if P x then 0 else (let i = findIndex P xs in if i < 0 then -1 else i + 1))"

definition home_of :: "string \<Rightarrow> master \<Rightarrow> stop list \<Rightarrow> string" where
  "home_of homeUuid m cleanedStops =
     (if homeUuid \<noteq> [] then homeUuid
      else if m_homeUuid m \<noteq> [] then m_homeUuid m
      else (case cleanedStops of [] \<Rightarrow> [] | s # _ \<Rightarrow> s_uuid s))"

definition homeLabel_of :: "string \<Rightarrow> stop list \<Rightarrow> string" where
  "homeLabel_of home cleanedStops =
     (case find (\<lambda>s. s_uuid s = home) cleanedStops of
        Some s \<Rightarrow> if s_label s \<noteq> [] then s_label s else ''Return''
      | None \<Rightarrow> ''Return'')"

definition floorNumber_of :: "stop list \<Rightarrow> string \<Rightarrow> int" where
  "floorNumber_of cleanedStops u =
     (let floorIndex = findIndex (\<lambda>s. s_uuid s = u) cleanedStops in
      int (length cleanedStops) - (if floorIndex \<ge> 0 then floorIndex else 0))"

definition stopLabel_of :: "stop list \<Rightarrow> resolved \<Rightarrow> string" where
  "stopLabel_of cleanedStops r =
     (let floorIndex = findIndex (\<lambda>s. s_uuid s = v_uuid r) cleanedStops;
          l = (if 0 \<le> floorIndex \<and> floorIndex < int (length cleanedStops)
               then s_label (cleanedStops ! nat floorIndex) else [])
      in if l \<noteq> [] then l else if v_label r \<noteq> [] then v_label r else r_name (v_doc r))"

definition desiredName_of :: "string \<Rightarrow> stop list \<Rightarrow> resolved \<Rightarrow> string" where
  "desiredName_of elevatorId' cleanedStops r =
     formatElevatorRegionName elevatorId' (floorNumber_of cleanedStops (v_uuid r))
       (stopLabel_of cleanedStops r)"

text \<open>
  \<open>mergeObject(current, {...}, {inplace: false})\<close>: every key of the second object is set,
  every other key of \<open>current\<close> is kept.
\<close>

definition nextFlags_of ::
  "string \<Rightarrow> master \<Rightarrow> stop list \<Rightarrow> string \<Rightarrow> resolved \<Rightarrow> flags" where
  "nextFlags_of elevatorId' m cleanedStops home r =
     \<lparr>f_enabled = True,
      f_elevatorId = elevatorId',
      f_isElevatorHere = (v_uuid r = home),
      f_theme = m_theme m,
      f_iconSrc = m_iconSrc m,
      f_iconSize = m_iconSize m,
      f_iconAlwaysOn = m_iconAlwaysOn m,
      f_levels = filter (\<lambda>s. s_uuid s \<noteq> v_uuid r) cleanedStops,
      f_returnTo = (if home \<noteq> [] \<and> home \<noteq> v_uuid r
                    then Some \<lparr>s_uuid = home, s_label = homeLabel_of home cleanedStops\<rparr>
                    else None),
      f_other = (case r_flags (v_doc r) of None \<Rightarrow> [] | Some cur \<Rightarrow> f_other cur)\<rparr>"

text \<open>
  \<open>restrictTeleportBehaviorsToNetwork\<close>: the behaviours after the call and the updates it
  made, by position.
\<close>

fun restrict_from ::
  "string set \<Rightarrow> string option \<Rightarrow> nat \<Rightarrow> behavior list \<Rightarrow> behavior list \<times> (nat \<times> string) list" where
  "restrict_from allowed fallback i [] = ([], [])"
| "restrict_from allowed fallback i (b # bs) =
     (let (bs', ups) = restrict_from allowed fallback (Suc i) bs in
      if b_type b \<noteq> ''teleportToken'' then (b # bs', ups)
      else if b_destination b = [] then (b # bs', ups)
      else if b_destination b \<in> allowed then (b # bs', ups)
      else (case fallback of
              None \<Rightarrow> (b # bs', ups)
            | Some fb \<Rightarrow> (b\<lparr>b_destination := fb\<rparr> # bs', (i, fb) # ups)))"

definition restrictTeleportBehaviorsToNetwork ::
  "string set \<Rightarrow> string \<Rightarrow> behavior list \<Rightarrow> behavior list \<times> (nat \<times> string) list" where
  "restrictTeleportBehaviorsToNetwork allowedUUIDs fallbackUUID behaviors =
     (let fallback = (if fallbackUUID \<noteq> [] \<and> fallbackUUID \<in> allowedUUIDs
                      then Some fallbackUUID else None)
      in if behaviors = [] then (behaviors, [])
         else restrict_from allowedUUIDs fallback 0 behaviors)"

text \<open>One turn of the loop over \<open>resolved\<close>: the stop's document after it, and its writes.\<close>

definition sync_stop ::
  "string \<Rightarrow> master \<Rightarrow> stop list \<Rightarrow> string \<Rightarrow> resolved \<Rightarrow> region \<times> action list" where
  "sync_stop elevatorId' m cleanedStops home r =
     (let desiredName = desiredName_of elevatorId' cleanedStops r;
          nextFlags = nextFlags_of elevatorId' m cleanedStops home r;
          d = v_doc r;
          renamed = (r_name d \<noteq> desiredName);
          d1 = d\<lparr>r_flags := Some nextFlags,
                 r_name := (if renamed then desiredName else r_name d)\<rparr>;
          (bs, ups) = restrictTeleportBehaviorsToNetwork (s_uuid ` set cleanedStops) home
                        (r_behaviors d1)
      in (d1\<lparr>r_behaviors := bs\<rparr>,
          UpdateDocument (v_uuid r) nextFlags (if renamed then Some desiredName else None)
            # map (\<lambda>(i, fb). UpdateBehavior (v_uuid r) i fb) ups))"

fun sync_stops ::
  "string \<Rightarrow> master \<Rightarrow> stop list \<Rightarrow> string \<Rightarrow> resolved list \<Rightarrow> (string \<rightharpoonup> document)
     \<Rightarrow> (string \<rightharpoonup> document) \<times> action list" where
  "sync_stops elevatorId' m cleanedStops home [] ds = (ds, [])"
| "sync_stops elevatorId' m cleanedStops home (r # rest) ds =
     (let (d, ws) = sync_stop elevatorId' m cleanedStops home r;
          (ds', ws') = sync_stops elevatorId' m cleanedStops home rest
                         (ds(v_uuid r \<mapsto> RegionDocument d))
      in (ds', ws @ ws'))"

text \<open>
  \<open>syncElevatorNetwork(elevatorId, {homeUuid})\<close> as run by a user who is the GM or not; a
  missing \<open>homeUuid\<close> is the empty string.  It returns the world after the run and the
  writes of the run, oldest first.  The registry is a plain object: \<open>links\<close> holds its own
  properties, and an elevator id that is only a key of \<open>Object.prototype\<close> reads as an object
  without stops, for which the run returns at the empty stop list as it does for an
  unknown id.
\<close>

definition syncElevatorNetwork :: "bool \<Rightarrow> string \<Rightarrow> string \<Rightarrow> world \<Rightarrow> world \<times> action list" where
  "syncElevatorNetwork gm elevatorId' homeUuid w =
     (if \<not> gm then (w, [])
      else if elevatorId' = [] then (w, [])
      else
        case links w elevatorId' of
          None \<Rightarrow> (w, [])
        | Some m \<Rightarrow>
            let stops = normalizeStops (m_stops m) in
            if stops = [] then (w, [])
            else
              let rs = resolve_stops (docs w) stops in
              if rs = [] then (w, [])
              else
                let cleanedStops = cleaned_of rs;
                    pruned = (length cleanedStops \<noteq> length stops);
                    w1 = (if pruned
                          then w\<lparr>links := (links w)(elevatorId' \<mapsto> m\<lparr>m_stops := cleanedStops\<rparr>)\<rparr>
                          else w);
                    home = home_of homeUuid m cleanedStops;
                    (ds, ws) = sync_stops elevatorId' m cleanedStops home rs (docs w1)
                in (w1\<lparr>docs := ds\<rparr>,
                    (if pruned then [WriteLinks elevatorId' cleanedStops] else []) @ ws))"

subsection \<open>Example worlds\<close>

definition plain_region :: "string \<Rightarrow> document" where
  "plain_region n = RegionDocument \<lparr>r_name = n, r_flags = None, r_behaviors = []\<rparr>"

definition master_of :: "stop list \<Rightarrow> master" where
  "master_of ss = \<lparr>m_stops = ss, m_homeUuid = [], m_theme = None, m_iconSrc = None,
     m_iconSize = None, m_iconAlwaysOn = False\<rparr>"

definition world_abc :: world where
  "world_abc = \<lparr>links = [''e'' \<mapsto> master_of
       [\<lparr>s_uuid = ''A'', s_label = ''Attic''\<rparr>, \<lparr>s_uuid = ''gone'', s_label = ''Lost''\<rparr>,
        \<lparr>s_uuid = ''B'', s_label = ''Bar''\<rparr>, \<lparr>s_uuid = ''C'', s_label = ''Cellar''\<rparr>]],
     docs = [''A'' \<mapsto> plain_region ''a'', ''B'' \<mapsto> plain_region ''b'',
             ''C'' \<mapsto> plain_region ''c'', ''gone'' \<mapsto> OtherDocument]\<rparr>"

definition world_unlabelled :: world where
  "world_unlabelled = \<lparr>links = [''e'' \<mapsto> master_of
       [\<lparr>s_uuid = ''A'', s_label = []\<rparr>, \<lparr>s_uuid = ''B'', s_label = []\<rparr>]],
     docs = [''A'' \<mapsto> plain_region ''Top'', ''B'' \<mapsto> plain_region ''Lobby'']\<rparr>"

definition stops100 :: "stop list" where
  "stops100 = map (\<lambda>k. \<lparr>s_uuid = ''s'' @ decimal k, s_label = ''L''\<rparr>) [0..<100]"

definition world100 :: world where
  "world100 = \<lparr>links = [''e'' \<mapsto> master_of stops100],
     docs = (\<lambda>u. if prefix ''s'' u then Some (plain_region ''room'') else None)\<rparr>"

text \<open>What one reads off a world: the name and the \<open>levels\<close> flag of the region at a uuid.\<close>

definition name_at :: "world \<Rightarrow> string \<Rightarrow> string option" where
  "name_at w u = (case docs w u of Some (RegionDocument d) \<Rightarrow> Some (r_name d) | _ \<Rightarrow> None)"

definition levels_at :: "world \<Rightarrow> string \<Rightarrow> stop list option" where
  "levels_at w u =
     (case docs w u of
        Some (RegionDocument d) \<Rightarrow> (case r_flags d of Some f \<Rightarrow> Some (f_levels f) | None \<Rightarrow> None)
      | _ \<Rightarrow> None)"

definition flags_at :: "world \<Rightarrow> string \<Rightarrow> flags option" where
  "flags_at w u = (case docs w u of Some (RegionDocument d) \<Rightarrow> r_flags d | _ \<Rightarrow> None)"

text \<open>
  A network that is already consistent: every stop of its normalized list resolves, and
  the document of each already has the name and the flags the sync engine derives for it
  and no teleport destination that the engine would redirect.
\<close>

definition consistent :: "string \<Rightarrow> string \<Rightarrow> world \<Rightarrow> bool" where
  "consistent elevatorId' homeUuid w =
     (case links w elevatorId' of
        None \<Rightarrow> False
      | Some m \<Rightarrow>
          let stops = normalizeStops (m_stops m);
              rs = resolve_stops (docs w) stops;
              c = cleaned_of rs;
              h = home_of homeUuid m c
          in rs \<noteq> [] \<and> length rs = length stops
             \<and> list_all (\<lambda>r. r_name (v_doc r) = desiredName_of elevatorId' c r
                         \<and> r_flags (v_doc r) = Some (nextFlags_of elevatorId' m c h r)
                         \<and> snd (restrictTeleportBehaviorsToNetwork (s_uuid ` set c) h
                                  (r_behaviors (v_doc r))) = []) rs)"

definition resync :: "world \<Rightarrow> world \<times> action list" where
  "resync w = syncElevatorNetwork True ''e'' [] w"

definition is_region :: "document option \<Rightarrow> bool" where
  "is_region x \<longleftrightarrow> (case x of Some (RegionDocument _) \<Rightarrow> True | _ \<Rightarrow> False)"

text \<open>The document updates in a list of writes: which region, and the name if one is written.\<close>

definition document_updates :: "action list \<Rightarrow> (string \<times> string option) list" where
  "document_updates log =
     concat (map (\<lambda>a. case a of UpdateDocument u f n \<Rightarrow> [(u, n)] | _ \<Rightarrow> []) log)"

definition other_writes :: "action list \<Rightarrow> action list" where
  "other_writes log = filter (\<lambda>a. case a of UpdateDocument u f n \<Rightarrow> False | _ \<Rightarrow> True) log"

definition world_labelled :: world where
  "world_labelled = \<lparr>links = [''e'' \<mapsto> master_of
       [\<lparr>s_uuid = ''A'', s_label = ''Attic''\<rparr>, \<lparr>s_uuid = ''B'', s_label = ''Bar''\<rparr>,
        \<lparr>s_uuid = ''C'', s_label = ''Cellar''\<rparr>]],
     docs = [''A'' \<mapsto> plain_region ''a'', ''B'' \<mapsto> plain_region ''b'',
             ''C'' \<mapsto> plain_region ''c'']\<rparr>"

section \<open>Properties of the current-level protocol\<close>

lemmas string_eval = trim_def str_def is_space_def

lemma trim_Nil [simp]: "trim [] = []"
  by (simp add: trim_def)

lemma dropWhile_hd_neg: "dropWhile P s \<noteq> [] \<Longrightarrow> \<not> P (hd (dropWhile P s))"
  by (metis hd_dropWhile)

lemma dropWhile_rev_dropWhile:
  "dropWhile P (rev (dropWhile P (rev (dropWhile P s)))) = rev (dropWhile P (rev (dropWhile P s)))"
proof -
  define xs where "xs = dropWhile P s"
  define ys where "ys = dropWhile P (rev xs)"
  show ?thesis
  proof (cases "ys = []")
    case True
    then have "dropWhile P (rev (dropWhile P s)) = []"
      by (simp only: xs_def ys_def)
    then show ?thesis by (simp only: rev.simps dropWhile.simps)
  next
    case False
    have "rev xs = takeWhile P (rev xs) @ ys"
      by (simp add: ys_def)
    then have "xs = rev ys @ rev (takeWhile P (rev xs))"
      by (metis rev_append rev_rev_ident)
    with False have "hd xs = hd (rev ys)" and "xs \<noteq> []"
      by (metis hd_append2 rev_is_Nil_conv, metis Nil_is_append_conv rev_is_Nil_conv)
    then have "\<not> P (hd (rev ys))"
      using dropWhile_hd_neg [of P s] by (simp add: xs_def)
    then have "dropWhile P (rev ys) = rev ys"
      using False by (cases "rev ys") auto
    then show ?thesis by (simp add: xs_def ys_def)
  qed
qed

lemma trim_idem: "trim (trim s) = trim s"
  by (simp add: trim_def dropWhile_rev_dropWhile)

lemma obj_set_ordinary: "k \<noteq> ''__proto__'' \<Longrightarrow> obj_set obj k v = obj(k \<mapsto> v)"
  by (simp add: obj_set_def)

lemma obj_set_other: "k' \<noteq> k \<Longrightarrow> obj_set obj k v k' = obj k'"
  by (simp add: obj_set_def)

text \<open>
  For an elevator id other than \<open>__proto__\<close>: a call whose trimmed arguments are both
  non-empty sets the caller's optimistic cache entry for the elevator to the uuid and queues
  a panel rerender.  On the GM it also sets the entry of the persisted store and emits a
  \<open>currentLevelChanged\<close> message with that elevator id and uuid (and its legacy copy); on
  any other client the persisted store is left as it was and a \<open>setCurrentLevel\<close> request
  (and its legacy copy) is emitted instead.
\<close>

lemma requestSetCurrentLevel_effect:
  assumes "trim (str e) = elevId" and "trim (str u) = uuid"
    and "elevId \<noteq> []" and "uuid \<noteq> []" and "elevId \<noteq> ''__proto__''"
    and "body = no_msg\<lparr>requestId := Some rid, elevatorId := Some elevId,
                  regionUuid := Some uuid\<rparr>"
    and "c' = requestSetCurrentLevel rid e u c"
  shows "cache c' = (cache c)(elevId \<mapsto> uuid)
       \<and> timers c' = insert elevId (timers c)
       \<and> (isGM c \<longrightarrow>
            store c' = (store c)(elevId \<mapsto> uuid)
          \<and> outbox c' = outbox c @
               [(SOCKET_CHANNEL, body\<lparr>mtype := Some ''currentLevelChanged''\<rparr>),
                (LEGACY_currentLevelChanged, body)])
       \<and> (\<not> isGM c \<longrightarrow>
            store c' = store c
          \<and> outbox c' = outbox c @
               [(SOCKET_CHANNEL,
                 body\<lparr>mtype := Some ''setCurrentLevel'', requester := userId c\<rparr>),
                (LEGACY_setCurrentLevel, body\<lparr>requester := userId c\<rparr>)])"
proof -
  have fixed: "trim elevId = elevId"
    using assms(1) trim_idem [of "str e"] by simp
  show ?thesis
    using assms fixed
    by (simp add: requestSetCurrentLevel_def queueRerenderOpenElevatorPanels_def emit_def
        Let_def no_msg_def obj_set_ordinary)
qed

lemma requestSetCurrentLevel_elev1:
  "trim (str (Some ''elev1'')) = ''elev1'' \<and> trim (str (Some '' stopB '')) = ''stopB''
   \<and> store (requestSetCurrentLevel ''r1'' (Some ''elev1'') (Some '' stopB '') gm0)
       = [''elev1'' \<mapsto> ''stopB'']
   \<and> cache (requestSetCurrentLevel ''r1'' (Some ''elev1'') (Some '' stopB '') gm0)
       = [''elev1'' \<mapsto> ''stopB'']
   \<and> timers (requestSetCurrentLevel ''r1'' (Some ''elev1'') (Some '' stopB '') gm0) = {''elev1''}
   \<and> store (requestSetCurrentLevel ''r1'' (Some ''elev1'') (Some '' stopB '') player0) = Map.empty
   \<and> map fst (outbox (requestSetCurrentLevel ''r1'' (Some ''elev1'') (Some '' stopB '') player0))
       = [SOCKET_CHANNEL, LEGACY_setCurrentLevel]"
proof -
  have e: "trim (str (Some ''elev1'')) = ''elev1''"
    and u: "trim (str (Some '' stopB '')) = ''stopB''"
    by (simp_all add: string_eval)
  have ne: "''elev1'' \<noteq> []" "''stopB'' \<noteq> []" "''elev1'' \<noteq> ''__proto__''" by simp_all
  note gm = requestSetCurrentLevel_effect [OF e u ne refl refl, of "''r1''" gm0]
  note pl = requestSetCurrentLevel_effect [OF e u ne refl refl, of "''r1''" player0]
  show ?thesis
    using e u gm pl by (simp add: gm0_def player0_def)
qed

text \<open>
  C1.  The claim: every call \<open>requestSetCurrentLevel(elevatorId, uuid)\<close> with non-empty
  trimmed arguments sets the caller's optimistic cache entry for that elevator id to the
  uuid, and on the GM sets the entry of the persisted store as well.  The code does not do
  so for the elevator id \<open>__proto__\<close>: the cache and the copy of the setting are plain
  objects, the two assignments store nothing, and the GM still queues the rerender and
  broadcasts \<open>currentLevelChanged\<close> for a level that it has neither cached nor persisted.
\<close>

theorem requestSetCurrentLevel_proto_key:
  "trim (str (Some ''__proto__'')) = ''__proto__'' \<and> trim (str (Some ''stopB'')) = ''stopB''
   \<and> cache (requestSetCurrentLevel ''r1'' (Some ''__proto__'') (Some ''stopB'') gm0) ''__proto__''
       = None
   \<and> cache (requestSetCurrentLevel ''r1'' (Some ''__proto__'') (Some ''stopB'') gm0) = cache gm0
   \<and> store (requestSetCurrentLevel ''r1'' (Some ''__proto__'') (Some ''stopB'') gm0) ''__proto__''
       = None
   \<and> store (requestSetCurrentLevel ''r1'' (Some ''__proto__'') (Some ''stopB'') gm0) = store gm0
   \<and> timers (requestSetCurrentLevel ''r1'' (Some ''__proto__'') (Some ''stopB'') gm0)
       = {''__proto__''}
   \<and> outbox (requestSetCurrentLevel ''r1'' (Some ''__proto__'') (Some ''stopB'') gm0)
       = [(SOCKET_CHANNEL,
           no_msg\<lparr>mtype := Some ''currentLevelChanged'', requestId := Some ''r1'',
             elevatorId := Some ''__proto__'', regionUuid := Some ''stopB''\<rparr>),
          (LEGACY_currentLevelChanged,
           no_msg\<lparr>requestId := Some ''r1'', elevatorId := Some ''__proto__'',
             regionUuid := Some ''stopB''\<rparr>)]"
  by (simp add: requestSetCurrentLevel_def queueRerenderOpenElevatorPanels_def emit_def
      Let_def no_msg_def obj_set_def gm0_def string_eval)

lemma seen_dispatch: "seen (dispatch fresh ty data c) = seen c"
  by (simp add: dispatch_def on_socketPing_def on_socketPong_def on_setCurrentLevel_def
      on_getCurrentLevel_def on_currentLevelChanged_def queueRerenderOpenElevatorPanels_def
      emit_def Let_def)

lemma seen_update_same: "seen x = s \<Longrightarrow> x\<lparr>seen := s\<rparr> = x"
  by auto

text \<open>
  C10.  A message whose \<open>requestId\<close> is missing, empty or white space only is never
  recorded and never taken for a duplicate: \<open>wasSocketRequestSeen\<close> answers \<open>false\<close> and
  leaves the seen-id map as it was, so the handler goes on to the branch of the message's
  type at every delivery, the second delivery of the same payload included.
\<close>

theorem blank_requestId_not_deduplicated:
  assumes "trim (str (requestId data)) = []" and "trim (str (mtype data)) = ty"
  shows "wasSocketRequestSeen now (requestId data) m = (False, m)
       \<and> handleSocketMessage fresh now data c = (if ty = [] then c else dispatch fresh ty data c)
       \<and> seen (handleSocketMessage fresh now data c) = seen c
       \<and> deliver [(fresh, now, data), (fresh', now', data)] c
           = (if ty = [] then c else dispatch fresh' ty data (dispatch fresh ty data c))"
  using assms
  by (simp add: wasSocketRequestSeen_def handleSocketMessage_def seen_dispatch seen_update_same)

theorem blank_requestId_not_deduplicated_witness:
  "trim (str (requestId (changed_msg ''  ''))) = []
   \<and> wasSocketRequestSeen 5 (requestId (changed_msg ''  '')) Map.empty = (False, Map.empty)
   \<and> seen (handleSocketMessage ''f'' 5 (changed_msg ''  '') player0) = Map.empty
   \<and> deliver [(''f'', 5, changed_msg ''  ''), (''g'', 6, changed_msg ''  '')] player0
       = dispatch ''g'' ''currentLevelChanged'' (changed_msg ''  '')
           (dispatch ''f'' ''currentLevelChanged'' (changed_msg ''  '') player0)"
proof -
  have blank: "trim (str (requestId (changed_msg ''  ''))) = []"
    and ty: "trim (str (mtype (changed_msg ''  ''))) = ''currentLevelChanged''"
    by (simp_all add: changed_msg_def no_msg_def string_eval)
  have unseen: "seen player0 = Map.empty"
    by (simp add: player0_def)
  show ?thesis
    using blank blank_requestId_not_deduplicated [OF blank ty, of 5 Map.empty "''f''" player0 "''g''" 6]
    by (simp add: unseen seen_dispatch del: deliver.simps)
qed

text \<open>
  What the handler of a \<open>currentLevelChanged\<close> message with non-empty elevator id and
  region uuid may change, on the GM as on any other client: the own property of the cache
  for that elevator id, the pending rerender timer of that id and the gate's record of
  request ids.  The persisted store, the emitted messages, the notifications and every
  other cache entry stay as they were.  For an elevator id other than \<open>__proto__\<close> a message
  that passes the gate sets the cache entry to the uuid.
\<close>

lemma currentLevelChanged_frame:
  assumes "trim (str (mtype data)) = ''currentLevelChanged''"
    and "trim (str (elevatorId data)) = elevId" and "trim (str (regionUuid data)) = uuid"
    and "elevId \<noteq> []" and "uuid \<noteq> []"
    and "c' = handleSocketMessage fresh now data c"
  shows "c' = (case wasSocketRequestSeen now (requestId data) (seen c) of
                 (True, m) \<Rightarrow> c\<lparr>seen := m\<rparr>
               | (False, m) \<Rightarrow>
                   c\<lparr>seen := m, cache := obj_set (cache c) elevId uuid,
                      timers := insert elevId (timers c)\<rparr>)
       \<and> store c' = store c \<and> outbox c' = outbox c \<and> notifications c' = notifications c
       \<and> isGM c' = isGM c \<and> userId c' = userId c
       \<and> (\<forall>k. k \<noteq> elevId \<longrightarrow> cache c' k = cache c k)
       \<and> (elevId \<noteq> ''__proto__'' \<longrightarrow> \<not> fst (wasSocketRequestSeen now (requestId data) (seen c)) \<longrightarrow>
            cache c' = (cache c)(elevId \<mapsto> uuid))"
proof -
  have fixed: "trim elevId = elevId"
    using assms(2) trim_idem [of "str (elevatorId data)"] by simp
  show ?thesis
    using assms fixed
    by (auto simp: handleSocketMessage_def dispatch_def on_currentLevelChanged_def
        queueRerenderOpenElevatorPanels_def Let_def obj_set_def split: prod.splits bool.splits)
qed

lemma currentLevelChanged_elev1:
  "trim (str (mtype (changed_msg ''r9''))) = ''currentLevelChanged''
   \<and> store (handleSocketMessage ''f'' 5 (changed_msg ''r9'') gm0) = store gm0
   \<and> outbox (handleSocketMessage ''f'' 5 (changed_msg ''r9'') gm0) = []
   \<and> cache (handleSocketMessage ''f'' 5 (changed_msg ''r9'') gm0) = [''elev1'' \<mapsto> ''stopB'']
   \<and> timers (handleSocketMessage ''f'' 5 (changed_msg ''r9'') gm0) = {''elev1''}"
  by (simp add: handleSocketMessage_def dispatch_def on_currentLevelChanged_def
      queueRerenderOpenElevatorPanels_def Let_def obj_set_def wasSocketRequestSeen_def
      expire_def changed_msg_def no_msg_def gm0_def string_eval)

text \<open>
  C8.  The claim: on a \<open>currentLevelChanged\<close> message with non-empty elevator id and region
  uuid a client updates its optimistic cache entry for that elevator id, queues a rerender
  and changes nothing else.  The code does not update the cache for the elevator id
  \<open>__proto__\<close>: the message passes the gate and the rerender is queued, but the assignment
  into the plain object stores nothing, so the cache is as it was.  The store and the
  emitted messages are untouched, as the claim says.
\<close>

theorem currentLevelChanged_proto_key:
  "trim (str (mtype proto_msg)) = ''currentLevelChanged''
   \<and> trim (str (elevatorId proto_msg)) = ''__proto__''
   \<and> trim (str (regionUuid proto_msg)) = ''stopB''
   \<and> fst (wasSocketRequestSeen 5 (requestId proto_msg) (seen player0)) = False
   \<and> cache (handleSocketMessage ''f'' 5 proto_msg player0) ''__proto__'' = None
   \<and> cache (handleSocketMessage ''f'' 5 proto_msg player0) = cache player0
   \<and> timers (handleSocketMessage ''f'' 5 proto_msg player0) = {''__proto__''}
   \<and> store (handleSocketMessage ''f'' 5 proto_msg player0) = store player0
   \<and> outbox (handleSocketMessage ''f'' 5 proto_msg player0) = []"
  by (simp add: handleSocketMessage_def dispatch_def on_currentLevelChanged_def
      queueRerenderOpenElevatorPanels_def Let_def obj_set_def wasSocketRequestSeen_def
      expire_def proto_msg_def no_msg_def player0_def string_eval)

text \<open>
  A read goes through the prototype as well: asked for the level of the elevator id
  \<open>constructor\<close>, a GM whose setting has no such entry answers with the text of the
  inherited function.
\<close>

lemma getCurrentLevel_inherited_key:
  "map (regionUuid \<circ> snd)
     (outbox (handleSocketMessage ''f'' 5
        (no_msg\<lparr>mtype := Some ''getCurrentLevel'', requestId := Some ''r3'',
           elevatorId := Some ''constructor''\<rparr>) gm0))
   = [Some ''function Object() { [native code] }'', Some ''function Object() { [native code] }'']"
  by (simp add: handleSocketMessage_def dispatch_def on_getCurrentLevel_def Let_def
      obj_get_text_def inherited_text_def request_id_or_def emit_def wasSocketRequestSeen_def
      expire_def no_msg_def gm0_def string_eval)

lemma seen_survives:
  assumes "seen c rid = Some ts" and "now - ts \<le> 8000"
  shows "seen (handleSocketMessage fresh now data c) rid = Some ts"
proof (cases "trim (str (mtype data)) = []")
  case True
  then show ?thesis using assms by (simp add: handleSocketMessage_def)
next
  case False
  have kept: "expire 8000 now (seen c) rid = Some ts"
    using assms by (simp add: expire_def)
  show ?thesis
  proof (cases "trim (str (requestId data)) = []")
    case True
    then show ?thesis
      using False assms by (simp add: handleSocketMessage_def wasSocketRequestSeen_def seen_dispatch)
  next
    case nonblank: False
    show ?thesis
    proof (cases "expire 8000 now (seen c) (trim (str (requestId data)))")
      case None
      then have "trim (str (requestId data)) \<noteq> rid" using kept by auto
      then show ?thesis
        using False nonblank None kept
        by (simp add: handleSocketMessage_def wasSocketRequestSeen_def seen_dispatch)
    next
      case (Some a)
      then show ?thesis
        using False nonblank kept
        by (simp add: handleSocketMessage_def wasSocketRequestSeen_def)
    qed
  qed
qed

lemma seen_survives_deliver:
  assumes "seen c rid = Some ts" and "\<forall>(fresh, now, data) \<in> set between. now - ts \<le> 8000"
  shows "seen (deliver between c) rid = Some ts"
  using assms
proof (induction between arbitrary: c)
  case Nil
  then show ?case by simp
next
  case (Cons x between)
  obtain fresh now data where x: "x = (fresh, now, data)" by (cases x) auto
  have "seen (handleSocketMessage fresh now data c) rid = Some ts"
    using Cons.prems x by (intro seen_survives) auto
  then show ?case
    using Cons.IH Cons.prems(2) x by simp
qed

text \<open>
  C2.  Two messages with the same non-empty request id, the first one typed and its id not
  seen within the last 8000 ms, the second one delivered no later than 8000 ms after the
  first, whatever is delivered in between within that window: the first passes the gate and
  is handled by the branch of its type, the second is dropped.  The drop changes no cache,
  store, timer, emitted message or notification; only entries of the seen-id map that are
  older than the window are forgotten.
\<close>

theorem duplicate_requestId_processed_once:
  assumes "trim (str (requestId m1)) = rid" and "trim (str (requestId m2)) = rid"
    and "rid \<noteq> []"
    and "trim (str (mtype m1)) = ty1" and "ty1 \<noteq> []"
    and "\<forall>ts. seen c rid = Some ts \<longrightarrow> t1 - ts > 8000"
    and "\<forall>(fresh, now, data) \<in> set between. now - t1 \<le> 8000"
    and "t2 - t1 \<le> 8000"
    and "c1 = handleSocketMessage f1 t1 m1 c"
    and "c2 = deliver between c1"
    and "c3 = handleSocketMessage f2 t2 m2 c2"
  shows "c1 = dispatch f1 ty1 m1 (c\<lparr>seen := (expire 8000 t1 (seen c))(rid \<mapsto> t1)\<rparr>)
       \<and> c3 = (if trim (str (mtype m2)) = [] then c2
               else c2\<lparr>seen := expire 8000 t2 (seen c2)\<rparr>)
       \<and> cache c3 = cache c2 \<and> store c3 = store c2 \<and> outbox c3 = outbox c2
       \<and> timers c3 = timers c2 \<and> notifications c3 = notifications c2"
proof -
  have gone: "expire 8000 t1 (seen c) rid = None"
    using assms(6) by (auto simp: expire_def split: option.splits)
  have first: "c1 = dispatch f1 ty1 m1 (c\<lparr>seen := (expire 8000 t1 (seen c))(rid \<mapsto> t1)\<rparr>)"
    using assms(1,3,4,5,9) gone
    by (simp add: handleSocketMessage_def wasSocketRequestSeen_def)
  then have "seen c1 rid = Some t1"
    by (simp add: seen_dispatch)
  then have "seen c2 rid = Some t1"
    using assms(7,10) seen_survives_deliver by simp
  then have "expire 8000 t2 (seen c2) rid = Some t1"
    using assms(8) by (simp add: expire_def)
  then have second: "c3 = (if trim (str (mtype m2)) = [] then c2
               else c2\<lparr>seen := expire 8000 t2 (seen c2)\<rparr>)"
    using assms(2,3,11) by (simp add: handleSocketMessage_def wasSocketRequestSeen_def)
  from first second show ?thesis by simp
qed

theorem duplicate_requestId_processed_once_witness:
  "trim (str (requestId set_msg)) = ''r1''
   \<and> trim (str (requestId (set_msg_legacy\<lparr>mtype := Some ''setCurrentLevel''\<rparr>))) = ''r1''
   \<and> (1005::int) - 1000 \<le> 8000
   \<and> store (handleSocketMessage ''f'' 1000 set_msg gm0) = [''elev1'' \<mapsto> ''stopB'']
   \<and> on_channel LEGACY_setCurrentLevel ''g'' 1005 set_msg_legacy
        (handleSocketMessage ''f'' 1000 set_msg gm0)
      = (handleSocketMessage ''f'' 1000 set_msg gm0)
          \<lparr>seen := expire 8000 1005 (seen (handleSocketMessage ''f'' 1000 set_msg gm0))\<rparr>
   \<and> length (outbox (on_channel LEGACY_setCurrentLevel ''g'' 1005 set_msg_legacy
        (handleSocketMessage ''f'' 1000 set_msg gm0))) = 2"
proof -
  let ?m2 = "set_msg_legacy\<lparr>mtype := Some ''setCurrentLevel''\<rparr>"
  have r1: "trim (str (requestId set_msg)) = ''r1''"
    and r2: "trim (str (requestId ?m2)) = ''r1''"
    and ty: "trim (str (mtype set_msg)) = ''setCurrentLevel''"
    by (simp_all add: set_msg_def set_msg_legacy_def no_msg_def string_eval)
  have ne: "''r1'' \<noteq> []" "''setCurrentLevel'' \<noteq> []" by simp_all
  have unseen: "\<forall>ts. seen gm0 ''r1'' = Some ts \<longrightarrow> 1000 - ts > 8000"
    by (simp add: gm0_def)
  have quiet: "\<forall>(fresh, now, data) \<in> set []. now - 1000 \<le> (8000::int)" by simp
  have window: "(1005::int) - 1000 \<le> 8000" by simp
  note once = duplicate_requestId_processed_once
    [OF r1 r2 ne(1) ty ne(2) unseen quiet window refl refl refl, of "''f''" "''g''"]
  have first: "store (handleSocketMessage ''f'' 1000 set_msg gm0) = [''elev1'' \<mapsto> ''stopB'']"
    "length (outbox (handleSocketMessage ''f'' 1000 set_msg gm0)) = 2"
    using once [THEN conjunct1]
    by (simp_all add: dispatch_def on_setCurrentLevel_def gm0_def set_msg_def no_msg_def
        emit_def Let_def obj_set_def string_eval)
  have typed: "trim (str (mtype ?m2)) \<noteq> []"
    by (simp add: string_eval)
  have second: "on_channel LEGACY_setCurrentLevel ''g'' 1005 set_msg_legacy
        (handleSocketMessage ''f'' 1000 set_msg gm0)
      = (handleSocketMessage ''f'' 1000 set_msg gm0)
          \<lparr>seen := expire 8000 1005 (seen (handleSocketMessage ''f'' 1000 set_msg gm0))\<rparr>"
    using typed once [THEN conjunct2, THEN conjunct1]
    by (simp add: on_channel_def LEGACY_setCurrentLevel_def LEGACY_getCurrentLevel_def
        LEGACY_currentLevelChanged_def SOCKET_CHANNEL_def)
  show ?thesis
    using r1 r2 window first
    by (simp add: second)
qed

section \<open>Properties of approval routing and execution\<close>

lemma users_get_member:
  "distinct (map uid users) \<Longrightarrow> u \<in> set users \<Longrightarrow> users_get users (uid u) = Some u"
  unfolding users_get_def
  by (induction users) (auto simp: image_iff)

lemma filter_ids:
  assumes "distinct (map uid users)" and "set xs \<subseteq> set users"
  shows "filter (\<lambda>i. case users_get users i of Some u \<Rightarrow> P u | None \<Rightarrow> False) (map uid xs)
       = map uid (filter P xs)"
  using assms(2)
proof (induction xs)
  case Nil
  then show ?case by simp
next
  case (Cons x xs)
  then have "users_get users (uid x) = Some x"
    using users_get_member [OF assms(1)] by simp
  then show ?case using Cons by simp
qed

lemma filter_ids_neg:
  assumes "distinct (map uid users)" and "set xs \<subseteq> set users"
  shows "filter (\<lambda>i. \<not> (case users_get users i of Some u \<Rightarrow> P u | None \<Rightarrow> False)) (map uid xs)
       = map uid (filter (\<lambda>u. \<not> P u) xs)"
  using assms(2)
proof (induction xs)
  case Nil
  then show ?case by simp
next
  case (Cons x xs)
  then have "users_get users (uid x) = Some x"
    using users_get_member [OF assms(1)] by simp
  then show ?case using Cons by simp
qed

text \<open>
  C3.  With \<open>game.users\<close> keyed by user id, the recipients computed for a subject token are
  all online non-GM owners of the token's actor, routed as \<open>owner\<close>, when there is one;
  otherwise all online GM users, routed as \<open>gm\<close>, when there is one; otherwise all GM
  users, online or not.  So a token with one online non-GM owner and one offline GM goes to
  the owner, and a token whose owner is offline while a GM is online goes to the GM.
\<close>

theorem approval_routing:
  assumes "distinct (map uid users)"
    and "owners = map uid (filter (\<lambda>u. owns t u \<and> active u \<and> \<not> user_isGM u) users)"
    and "onlineGms = map uid (filter (\<lambda>u. user_isGM u \<and> active u) users)"
    and "allGms = map uid (filter user_isGM users)"
  shows "computeApprovalRecipientsForToken users t =
           (if owners \<noteq> [] then (owners, ''owner'')
            else if onlineGms \<noteq> [] then (onlineGms, ''gm'')
            else (allGms, ''gm''))"
proof -
  have "filter (\<lambda>i. \<not> (case users_get users i of Some u \<Rightarrow> user_isGM u | None \<Rightarrow> False))
          (filter (\<lambda>i. case users_get users i of Some u \<Rightarrow> active u | None \<Rightarrow> False)
             (getActorOwnerUserIds users (token_actor t))) = owners"
  proof (cases "token_actor t")
    case None
    then show ?thesis by (simp add: getActorOwnerUserIds_def assms(2) owns_def)
  next
    case (Some a)
    let ?own = "\<lambda>u. ownership_level a (uid u) \<ge> OWNER"
    have ids: "getActorOwnerUserIds users (token_actor t) = map uid (filter ?own users)"
      using Some by (simp add: getActorOwnerUserIds_def)
    have online: "filter (\<lambda>i. case users_get users i of Some u \<Rightarrow> active u | None \<Rightarrow> False)
        (map uid (filter ?own users)) = map uid (filter active (filter ?own users))"
      by (rule filter_ids [OF assms(1)]) simp
    have nongm: "filter (\<lambda>i. \<not> (case users_get users i of Some u \<Rightarrow> user_isGM u | None \<Rightarrow> False))
        (map uid (filter active (filter ?own users)))
        = map uid (filter (\<lambda>u. \<not> user_isGM u) (filter active (filter ?own users)))"
      by (rule filter_ids_neg [OF assms(1)]) auto
    have "map uid (filter (\<lambda>u. \<not> user_isGM u) (filter active (filter ?own users))) = owners"
      using Some by (simp add: assms(2) owns_def conj_commute conj_left_commute)
    then show ?thesis
      by (simp only: ids online nongm)
  qed
  then show ?thesis
    by (simp add: computeApprovalRecipientsForToken_def getGMUserIds_def assms(3,4) Let_def)
qed

theorem approval_routing_witness:
  "distinct (map uid [owner1, gm1])
   \<and> computeApprovalRecipientsForToken [owner1, gm1] alice_token = ([''alice''], ''owner'')
   \<and> distinct (map uid [owner1\<lparr>active := False\<rparr>, gm1\<lparr>active := True\<rparr>])
   \<and> computeApprovalRecipientsForToken [owner1\<lparr>active := False\<rparr>, gm1\<lparr>active := True\<rparr>]
        alice_token = ([''gm''], ''gm'')"
proof -
  have d1: "distinct (map uid [owner1, gm1])"
    and d2: "distinct (map uid [owner1\<lparr>active := False\<rparr>, gm1\<lparr>active := True\<rparr>])"
    by (simp_all add: owner1_def gm1_def)
  show ?thesis
    using d1 d2 approval_routing [OF d1 refl refl refl, of alice_token]
      approval_routing [OF d2 refl refl refl, of alice_token]
    by (simp add: owner1_def gm1_def alice_token_def owns_def ownership_level_def OWNER_def)
qed



text \<open>
  The handler starts by resolving the destination; when the uuid does not resolve to a
  region it returns at once and nothing below is reached.
\<close>

lemma approve_click_without_destination:
  "\<not> dest_is_region h \<Longrightarrow> approve_click h rid p s = s"
  by (simp add: approve_click_def)




section \<open>Properties of region names\<close>

lemma digit_not_space: "is_digit c \<Longrightarrow> \<not> is_space c"
  by (auto simp: is_digit_def is_space_def)

lemma trim_hd: "trim s \<noteq> [] \<Longrightarrow> \<not> is_space (hd (trim s))"
proof -
  assume ne: "trim s \<noteq> []"
  define xs where "xs = dropWhile is_space s"
  define ys where "ys = dropWhile is_space (rev xs)"
  have t: "trim s = rev ys" by (simp add: trim_def xs_def ys_def)
  with ne have "ys \<noteq> []" by simp
  have "rev xs = takeWhile is_space (rev xs) @ ys" by (simp add: ys_def)
  then have "xs = rev ys @ rev (takeWhile is_space (rev xs))"
    by (metis rev_append rev_rev_ident)
  with \<open>ys \<noteq> []\<close> have "hd xs = hd (rev ys)" and "xs \<noteq> []"
    by (metis hd_append2 rev_is_Nil_conv, metis Nil_is_append_conv rev_is_Nil_conv)
  then show ?thesis
    using dropWhile_hd_neg [of is_space s] by (simp add: t xs_def)
qed

lemma trim_last: "trim s \<noteq> [] \<Longrightarrow> \<not> is_space (last (trim s))"
proof -
  assume ne: "trim s \<noteq> []"
  define ys where "ys = dropWhile is_space (rev (dropWhile is_space s))"
  have t: "trim s = rev ys" by (simp add: trim_def ys_def)
  with ne have "ys \<noteq> []" by simp
  then have "\<not> is_space (hd ys)"
    unfolding ys_def by (rule dropWhile_hd_neg)
  then show ?thesis
    using \<open>ys \<noteq> []\<close> by (simp add: t last_rev)
qed

lemma trim_fixed:
  assumes "s \<noteq> []" and "\<not> is_space (hd s)" and "\<not> is_space (last s)"
  shows "trim s = s"
proof -
  have a: "dropWhile is_space s = s"
    using assms(1,2) by (cases s) auto
  have "rev s \<noteq> []" and "\<not> is_space (hd (rev s))"
    using assms(1,3) by (simp_all add: hd_rev)
  then have "dropWhile is_space (rev s) = rev s"
    by (cases "rev s") auto
  then show ?thesis by (simp add: trim_def a)
qed

lemma rx_then_simps [simp]:
  "rx_then [] f = []"
  "rx_then (x # xs) f = f x @ rx_then xs f"
  "rx_then (xs @ ys) f = rx_then xs f @ rx_then ys f"
  by (simp_all add: rx_then_def)

lemma rx_plus_greedy_stop: "s = [] \<or> \<not> P (hd s) \<Longrightarrow> rx_plus_greedy P s = []"
  by (cases s) auto

lemma rx_floor_shape:
  assumes "rx_floor u \<noteq> []"
  shows "\<exists>a b c r. u = a # b # c # r \<and> is_digit a \<and> is_digit b \<and> is_space c"
proof -
  obtain a u1 where u: "u = a # u1" and a: "is_digit a"
    using assms by (cases u) (auto simp: rx_floor_def split: if_splits)
  obtain b u2 where u1: "u1 = b # u2" and b: "is_digit b"
    using assms u a by (cases u1) (auto simp: rx_floor_def split: if_splits)
  obtain c r where u2: "u2 = c # r" and c: "is_space c"
    using assms u a u1 b by (cases u2) (auto simp: rx_floor_def split: if_splits)
  show ?thesis using u u1 u2 a b c by blast
qed

lemma rx_gap_floor_shape:
  "rx_gap_floor t \<noteq> [] \<Longrightarrow>
     \<exists>w a b c r. t = w @ a # b # c # r \<and> w \<noteq> [] \<and> (\<forall>x \<in> set w. is_space x)
        \<and> is_digit a \<and> is_digit b \<and> is_space c"
proof (induction t)
  case Nil
  then show ?case by (simp add: rx_gap_floor_def)
next
  case (Cons x t)
  then have x: "is_space x"
    by (auto simp: rx_gap_floor_def split: if_splits)
  then have split: "rx_gap_floor (x # t) = rx_gap_floor t @ rx_floor t"
    by (simp add: rx_gap_floor_def)
  show ?case
  proof (cases "rx_gap_floor t = []")
    case True
    then have "rx_floor t \<noteq> []" using Cons.prems split by simp
    then obtain a b c r where "t = a # b # c # r" "is_digit a" "is_digit b" "is_space c"
      using rx_floor_shape by blast
    then have "x # t = [x] @ a # b # c # r \<and> [x] \<noteq> [] \<and> (\<forall>y \<in> set [x]. is_space y)
        \<and> is_digit a \<and> is_digit b \<and> is_space c"
      using x by simp
    then show ?thesis by blast
  next
    case False
    then obtain w a b c r where "t = w @ a # b # c # r" "w \<noteq> []" "\<forall>y \<in> set w. is_space y"
      "is_digit a" "is_digit b" "is_space c"
      using Cons.IH by blast
    then have "x # t = (x # w) @ a # b # c # r \<and> x # w \<noteq> [] \<and> (\<forall>y \<in> set (x # w). is_space y)
        \<and> is_digit a \<and> is_digit b \<and> is_space c"
      using x by simp
    then show ?thesis by blast
  qed
qed

lemma rx_gap_floor_hit:
  assumes "is_digit a" and "is_digit b" and "lbl \<noteq> []" and "\<not> is_space (hd lbl)"
  shows "rx_gap_floor (CHR '' '' # a # b # CHR '' '' # lbl) = [lbl]"
proof -
  have sp: "is_space (CHR '' '')" by (simp add: is_space_def)
  have stop: "rx_plus_greedy is_space lbl = []"
    using assms(3,4) by (intro rx_plus_greedy_stop) simp
  have floor: "rx_floor (a # b # CHR '' '' # lbl) = [lbl]"
    using assms(1,2) sp stop by (simp add: rx_floor_def)
  show ?thesis
    using sp digit_not_space [OF assms(1)] floor by (simp add: rx_gap_floor_def)
qed

lemma rx_lazy_skip:
  assumes "\<forall>c \<in> set xs. P c" and "xs \<noteq> []"
    and "\<And>zs ys. xs = zs @ ys \<Longrightarrow> zs \<noteq> [] \<Longrightarrow> ys \<noteq> [] \<Longrightarrow> k (ys @ R) = []"
  shows "rx_then (rx_plus_lazy P (xs @ R)) k = k R @ rx_then (rx_plus_lazy P R) k"
  using assms
proof (induction xs)
  case Nil
  then show ?case by simp
next
  case (Cons x xs)
  show ?case
  proof (cases "xs = []")
    case True
    then show ?thesis using Cons.prems(1) by simp
  next
    case False
    have "k (xs @ R) = []"
      using Cons.prems(3) [of "[x]" xs] False by simp
    moreover have "rx_then (rx_plus_lazy P (xs @ R)) k = k R @ rx_then (rx_plus_lazy P R) k"
    proof (rule Cons.IH)
      show "\<forall>c \<in> set xs. P c" using Cons.prems(1) by simp
      show "xs \<noteq> []" by (rule False)
      show "k (ys @ R) = []" if "xs = zs @ ys" "zs \<noteq> []" "ys \<noteq> []" for zs ys
        using Cons.prems(3) [of "x # zs" ys] that by simp
    qed
    ultimately show ?thesis using Cons.prems(1) by simp
  qed
qed

lemma segments_spaces: "\<forall>x \<in> set w. is_space x \<Longrightarrow> segments (w @ s) = segments s"
  by (induction w) auto

lemma takeWhile_append_stop: "s = [] \<or> \<not> P (hd s) \<Longrightarrow> takeWhile P (cs @ s) = takeWhile P cs"
  by (induction cs) (auto, cases s, auto)

lemma dropWhile_append_stop:
  "s = [] \<or> \<not> P (hd s) \<Longrightarrow> dropWhile P (cs @ s) = dropWhile P cs @ s"
  by (induction cs) (auto, cases s, auto)

lemma segments_append:
  "s = [] \<or> is_space (hd s) \<Longrightarrow> segments (zs @ s) = segments zs @ segments s"
proof (induction zs rule: segments.induct)
  case 1
  then show ?case by simp
next
  case (2 c cs)
  show ?case
  proof (cases "is_space c")
    case True
    then show ?thesis using 2 by simp
  next
    case False
    let ?ns = "\<lambda>x. \<not> is_space x"
    have tk: "takeWhile ?ns (cs @ s) = takeWhile ?ns cs"
      using "2.prems" by (intro takeWhile_append_stop) simp
    have dr: "dropWhile ?ns (cs @ s) = dropWhile ?ns cs @ s"
      using "2.prems" by (intro dropWhile_append_stop) simp
    have "segments (dropWhile ?ns cs @ s) = segments (dropWhile ?ns cs) @ segments s"
      using "2.IH"(2) [OF False] "2.prems" by simp
    then show ?thesis
      using False tk dr by simp
  qed
qed

lemma segments_trim: "segments (trim s) = segments s"
proof -
  define xs where "xs = dropWhile is_space s"
  have a: "segments s = segments xs"
    using segments_spaces [of "takeWhile is_space s" xs]
    by (simp add: xs_def) (metis set_takeWhileD)
  have sp: "segments w = []" if "\<forall>x \<in> set w. is_space x" for w
    using segments_spaces [OF that, of "[]"] by simp
  have "rev xs = takeWhile is_space (rev xs) @ dropWhile is_space (rev xs)" by simp
  then have xs: "xs = trim s @ rev (takeWhile is_space (rev xs))"
    unfolding trim_def xs_def by (metis rev_append rev_rev_ident)
  let ?w = "rev (takeWhile is_space (rev xs))"
  have w: "\<forall>x \<in> set ?w. is_space x"
    by (simp) (metis set_takeWhileD)
  then have "?w = [] \<or> is_space (hd ?w)"
    by (cases ?w) auto
  then have "segments (trim s @ ?w) = segments (trim s) @ segments ?w"
    by (rule segments_append)
  then show ?thesis
    using a xs sp [OF w] by simp
qed

lemma segments_two_digit:
  assumes "w \<noteq> []" and "\<forall>x \<in> set w. is_space x" and "is_digit a" and "is_digit b"
    and "r = [] \<or> is_space (hd r)"
  shows "[a, b] \<in> set (segments (zs @ w @ a # b # r))"
proof -
  let ?ns = "\<lambda>x. \<not> is_space x"
  have "is_space (hd (w @ a # b # r))"
    using assms(1,2) by (cases w) auto
  then have "segments (zs @ w @ a # b # r) = segments zs @ segments (w @ a # b # r)"
    by (intro segments_append) simp
  also have "segments (w @ a # b # r) = segments (a # b # r)"
    using assms(2) by (rule segments_spaces)
  also have "segments (a # b # r) = [a, b] # segments (dropWhile ?ns r)"
    using assms(5) digit_not_space [OF assms(3)] digit_not_space [OF assms(4)]
    by (cases r) auto
  finally show ?thesis by simp
qed

lemma no_match_inside_id:
  assumes eid: "eid = zs @ ys" "ys \<noteq> []" "\<not> is_space (last eid)"
    and seg: "\<forall>w \<in> set (segments eid). \<not> two_digit w"
    and R: "R = CHR '' '' # d1 # d2 # rest" "is_digit d1"
  shows "rx_gap_floor (ys @ R) = []"
proof (rule ccontr)
  assume "rx_gap_floor (ys @ R) \<noteq> []"
  then obtain w a b c r where shape: "ys @ R = w @ a # b # c # r" "w \<noteq> []"
      "\<forall>x \<in> set w. is_space x" "is_digit a" "is_digit b" "is_space c"
    using rx_gap_floor_shape by blast
  have last: "\<not> is_space (last ys)"
    using eid by simp
  have "length w < length ys"
  proof (rule ccontr)
    assume "\<not> length w < length ys"
    then have "take (length ys) w = ys"
      using shape(1) by (metis append_eq_append_conv_if leI)
    then have "set ys \<subseteq> set w"
      by (metis set_take_subset)
    then show False
      using last shape(3) eid(2) last_in_set by blast
  qed
  then obtain ys' where ys: "ys = w @ ys'" "ys' \<noteq> []"
    using shape(1) by (metis append_eq_append_conv_if append_take_drop_id drop_eq_Nil2 leD)
  then have rest: "ys' @ R = a # b # c # r"
    using shape(1) by simp
  obtain t1 where t1: "ys' = a # t1"
    using rest ys(2) by (cases ys') auto
  have "t1 \<noteq> []"
    using rest t1 R(1) shape(5) by (auto simp: is_digit_def)
  then obtain t2 where t2: "t1 = b # t2"
    using rest t1 by (cases t1) auto
  have "t2 = [] \<or> is_space (hd t2)"
    using rest t1 t2 shape(6) by (cases t2) auto
  then have "[a, b] \<in> set (segments (zs @ w @ a # b # t2))"
    using segments_two_digit shape(2,3,4,5) by blast
  moreover have "eid = zs @ w @ a # b # t2"
    using eid(1) ys t1 t2 by simp
  moreover have "two_digit [a, b]"
    using shape(4,5) by (simp add: two_digit_def)
  ultimately show False using seg by auto
qed

lemma digit_char_digit: "d < 10 \<Longrightarrow> is_digit (digit_char d)"
  unfolding is_digit_def digit_char_def by (intro nth_mem) simp

lemma padStart2_decimal:
  assumes "n < 100"
  shows "\<exists>a b. padStart2 (decimal n) = [a, b] \<and> is_digit a \<and> is_digit b"
proof (cases "n < 10")
  case True
  then have "decimal n = [digit_char n]"
    using decimal.simps [of n] by simp
  then have "padStart2 (decimal n) = [CHR ''0'', digit_char n]"
    by (simp add: padStart2_def)
  moreover have "is_digit (CHR ''0'')" by (simp add: is_digit_def)
  ultimately show ?thesis using digit_char_digit [OF True] by blast
next
  case False
  then have "n div 10 < 10" "n mod 10 < 10" using assms by auto
  moreover have "decimal (n div 10) = [digit_char (n div 10)]"
    using \<open>n div 10 < 10\<close> decimal.simps [of "n div 10"] by simp
  moreover have "decimal n = decimal (n div 10) @ [digit_char (n mod 10)]"
    using False decimal.simps [of n] by simp
  ultimately have "padStart2 (decimal n) = [digit_char (n div 10), digit_char (n mod 10)]"
    by (simp add: padStart2_def)
  moreover note \<open>n div 10 < 10\<close> \<open>n mod 10 < 10\<close>
  ultimately show ?thesis using digit_char_digit by blast
qed

lemma strip_not_own_name: "\<not> prefix ''ELV '' (trim l) \<Longrightarrow> stripElevatorNamePrefix (trim l) = trim l"
  by (simp add: stripElevatorNamePrefix_def trim_idem)

lemma rx_elv_prefix_hit:
  assumes eid: "eid \<noteq> []" "\<not> is_space (hd eid)" "\<not> is_space (last eid)"
    and dot: "\<forall>c \<in> set eid. \<not> is_line_terminator c"
    and seg: "\<forall>w \<in> set (segments eid). \<not> two_digit w"
    and num: "is_digit a" "is_digit b"
    and lbl: "lbl \<noteq> []" "\<not> is_space (hd lbl)"
  shows "\<exists>more. rx_elv_prefix (''ELV '' @ eid @ '' '' @ [a, b] @ '' '' @ lbl) = lbl # more"
proof -
  let ?R = "CHR '' '' # a # b # CHR '' '' # lbl"
  have sp: "is_space (CHR '' '')" by (simp add: is_space_def)
  have lit: "rx_lit ''ELV'' (''ELV '' @ eid @ '' '' @ [a, b] @ '' '' @ lbl) = [CHR '' '' # eid @ ?R]"
    by (simp add: rx_lit_def)
  have "rx_plus_greedy is_space (eid @ ?R) = []"
    using eid(1,2) by (intro rx_plus_greedy_stop) simp
  then have gap: "rx_plus_greedy is_space (CHR '' '' # eid @ ?R) = [eid @ ?R]"
    using sp by simp
  have inner: "rx_gap_floor (ys @ ?R) = []" if "eid = zs @ ys" "zs \<noteq> []" "ys \<noteq> []" for zs ys
    using no_match_inside_id [OF that(1,3) eid(3) seg refl num(1)] .
  have "rx_id_gap_floor (eid @ ?R)
      = rx_gap_floor ?R @ rx_then (rx_plus_lazy (\<lambda>c. \<not> is_line_terminator c) ?R) rx_gap_floor"
    unfolding rx_id_gap_floor_def
    using dot eid(1) inner by (intro rx_lazy_skip) auto
  then have step: "rx_id_gap_floor (eid @ ?R)
      = lbl # rx_then (rx_plus_lazy (\<lambda>c. \<not> is_line_terminator c) ?R) rx_gap_floor"
    by (simp only: rx_gap_floor_hit [OF num lbl] append_Cons append_Nil)
  have whole: "rx_elv_prefix (''ELV '' @ eid @ '' '' @ [a, b] @ '' '' @ lbl)
      = rx_id_gap_floor (eid @ ?R)"
    by (simp only: rx_elv_prefix_def lit gap rx_then_simps append_Nil2 append_Nil)
  show ?thesis
    using whole step by metis
qed

text \<open>
  Where the round trip holds: for an elevator id whose white-space separated segments
  contain no two-digit number, whose trimmed form is not empty and holds no line
  terminator, for a floor number of at most 99 and for a label whose trimmed form is not
  empty and does not start with \<open>ELV \<close>, stripping the formatted region name gives back the
  trimmed label.
\<close>

lemma strip_format_roundtrip:
  assumes "\<forall>w \<in> set (segments elevatorId'). \<not> two_digit w"
    and "trim elevatorId' \<noteq> []"
    and "\<forall>c \<in> set (trim elevatorId'). \<not> is_line_terminator c"
    and "floorNumber \<le> 99"
    and "trim label' \<noteq> []"
    and "\<not> prefix ''ELV '' (trim label')"
  shows "stripElevatorNamePrefix (formatElevatorRegionName elevatorId' floorNumber label')
       = trim label'"
proof -
  let ?eid = "trim elevatorId'" and ?lbl = "trim label'"
  have "nat (max 1 (if floorNumber = 0 then 1 else floorNumber)) < 100"
    using assms(4) by auto
  then obtain a b where num:
      "padStart2 (decimal (nat (max 1 (if floorNumber = 0 then 1 else floorNumber)))) = [a, b]"
      "is_digit a" "is_digit b"
    using padStart2_decimal by blast
  let ?name = "''ELV '' @ ?eid @ '' '' @ [a, b] @ '' '' @ ?lbl"
  have lbl: "\<not> is_space (hd ?lbl)" "\<not> is_space (last ?lbl)"
    using assms(5) trim_hd trim_last by blast+
  have eid: "\<not> is_space (hd ?eid)" "\<not> is_space (last ?eid)"
    using assms(2) trim_hd trim_last by blast+
  have "\<not> is_space (hd ?name)" by (simp add: is_space_def)
  moreover have "\<not> is_space (last ?name)" using lbl(2) assms(5) by simp
  ultimately have fixed: "trim ?name = ?name"
    by (intro trim_fixed) simp_all
  have formatted: "formatElevatorRegionName elevatorId' floorNumber label' = ?name"
    using num(1) fixed strip_not_own_name [OF assms(6)]
    by (simp add: formatElevatorRegionName_def Let_def)
  have seg: "\<forall>w \<in> set (segments ?eid). \<not> two_digit w"
    using assms(1) by (simp add: segments_trim)
  obtain more where hit: "rx_elv_prefix ?name = ?lbl # more"
    using rx_elv_prefix_hit [OF assms(2) eid assms(3) seg num(2,3) assms(5) lbl(1)] by blast
  have own: "prefix ''ELV '' ?name" by simp
  show ?thesis
    using fixed hit own assms(5)
    by (simp add: formatted stripElevatorNamePrefix_def replace_elv_prefix_def trim_idem)
qed

lemma strip_format_roundtrip_example:
  "segments ''Tower 7 East'' = [''Tower'', ''7'', ''East'']
   \<and> trim ''Tower 7 East'' = ''Tower 7 East''
   \<and> list_all (\<lambda>c. \<not> is_line_terminator c) (trim ''Tower 7 East'')
   \<and> (3::int) \<le> 99
   \<and> trim '' 12 Lobby '' = ''12 Lobby''
   \<and> \<not> prefix ''ELV '' (trim '' 12 Lobby '')
   \<and> formatElevatorRegionName ''Tower 7 East'' 3 '' 12 Lobby '' = ''ELV Tower 7 East 03 12 Lobby''
   \<and> stripElevatorNamePrefix (formatElevatorRegionName ''Tower 7 East'' 3 '' 12 Lobby '')
       = ''12 Lobby''"
proof -
  have seg: "\<forall>w \<in> set (segments ''Tower 7 East''). \<not> two_digit w"
    by code_simp
  have eid: "trim ''Tower 7 East'' \<noteq> []"
    and dot: "\<forall>c \<in> set (trim ''Tower 7 East''). \<not> is_line_terminator c"
    and lbl: "trim '' 12 Lobby '' = ''12 Lobby''"
    and own: "\<not> prefix ''ELV '' (trim '' 12 Lobby '')"
    and name: "formatElevatorRegionName ''Tower 7 East'' 3 '' 12 Lobby ''
       = ''ELV Tower 7 East 03 12 Lobby''"
    by code_simp+
  have floor: "(3::int) \<le> 99" by simp
  have ne: "trim '' 12 Lobby '' \<noteq> []" using lbl by simp
  have shown: "segments ''Tower 7 East'' = [''Tower'', ''7'', ''East'']"
    "trim ''Tower 7 East'' = ''Tower 7 East''"
    "list_all (\<lambda>c. \<not> is_line_terminator c) (trim ''Tower 7 East'')"
    by code_simp+
  show ?thesis
    using shown lbl own name strip_format_roundtrip [OF seg eid dot floor ne own]
    by simp
qed

text \<open>
  C9.  The claim: stripping a formatted region name gives back the label, for every floor
  number, so that a re-sync cannot pile up \<open>ELV\<close> prefixes.  The code misses it from floor
  100 on: \<open>padStart(2, "0")\<close> writes three digits, the pattern of
  \<open>stripElevatorNamePrefix\<close> wants exactly two, nothing is stripped and the whole name comes
  back as the label; formatting that label again nests the prefix.
\<close>

theorem strip_format_floor_100:
  "segments ''A'' = [''A''] \<and> \<not> two_digit ''A'' \<and> trim ''A'' = ''A''
   \<and> ''Lobby'' \<noteq> [] \<and> \<not> prefix ''ELV '' ''Lobby''
   \<and> formatElevatorRegionName ''A'' 100 ''Lobby'' = ''ELV A 100 Lobby''
   \<and> stripElevatorNamePrefix (formatElevatorRegionName ''A'' 100 ''Lobby'') = ''ELV A 100 Lobby''
   \<and> stripElevatorNamePrefix (formatElevatorRegionName ''A'' 100 ''Lobby'') \<noteq> trim ''Lobby''
   \<and> formatElevatorRegionName ''A'' 100 (formatElevatorRegionName ''A'' 100 ''Lobby'')
       = ''ELV A 100 ELV A 100 Lobby''
   \<and> stripElevatorNamePrefix (formatElevatorRegionName ''A'' 99 ''Lobby'') = ''Lobby''"
  by code_simp

lemma strip_format_empty_id:
  "stripElevatorNamePrefix (formatElevatorRegionName '' '' 3 ''Lobby'') = ''ELV  03 Lobby''"
  by code_simp

lemma strip_format_line_break_in_id:
  "stripElevatorNamePrefix (formatElevatorRegionName [CHR ''a'', CHR 0x0A, CHR ''b''] 3 ''Lobby'')
     = ''ELV a'' @ [CHR 0x0A] @ ''b 03 Lobby''"
  by code_simp

section \<open>Properties of the network sync engine\<close>

lemma normalize_from_uuids:
  "s \<in> set (normalize_from seen' ss) \<Longrightarrow>
     s_uuid s \<noteq> [] \<and> s_uuid s \<notin> seen' \<and> (\<exists>raw \<in> set ss. s_uuid s = trim (s_uuid raw))"
proof (induction ss arbitrary: seen')
  case Nil
  then show ?case by simp
next
  case (Cons x ss)
  show ?case
  proof (cases "trim (s_uuid x) = [] \<or> trim (s_uuid x) \<in> seen'")
    case True
    then show ?thesis using Cons by auto
  next
    case False
    then consider "s = \<lparr>s_uuid = trim (s_uuid x), s_label = stripElevatorNamePrefix (trim (s_label x))\<rparr>"
      | "s \<in> set (normalize_from (insert (trim (s_uuid x)) seen') ss)"
      using Cons.prems by (auto simp: Let_def)
    then show ?thesis
    proof cases
      case 1
      then show ?thesis using False by simp
    next
      case 2
      then show ?thesis using Cons.IH [OF 2] by auto
    qed
  qed
qed

lemma normalize_from_distinct: "distinct (map s_uuid (normalize_from seen' ss))"
proof (induction ss arbitrary: seen')
  case Nil
  then show ?case by simp
next
  case (Cons x ss)
  have "trim (s_uuid x) \<notin> s_uuid ` set (normalize_from (insert (trim (s_uuid x)) seen') ss)"
    using normalize_from_uuids by fastforce
  then show ?case using Cons by (simp add: Let_def)
qed

lemma normalize_from_covers:
  "raw \<in> set ss \<Longrightarrow> trim (s_uuid raw) \<noteq> [] \<Longrightarrow> trim (s_uuid raw) \<notin> seen' \<Longrightarrow>
     trim (s_uuid raw) \<in> s_uuid ` set (normalize_from seen' ss)"
proof (induction ss arbitrary: seen')
  case Nil
  then show ?case by simp
next
  case (Cons x ss)
  show ?case
  proof (cases "trim (s_uuid x) = trim (s_uuid raw)")
    case True
    then show ?thesis using Cons.prems by (simp add: Let_def)
  next
    case False
    then have "raw \<in> set ss" using Cons.prems(1) by auto
    then show ?thesis
      using Cons.IH [of seen'] Cons.IH [of "insert (trim (s_uuid x)) seen'"] Cons.prems(2,3) False
      by (auto simp: Let_def)
  qed
qed

lemma normalizeStops_distinct: "distinct (map s_uuid (normalizeStops ss))"
  by (simp add: normalizeStops_def normalize_from_distinct)

lemma normalizeStops_trimmed:
  "s \<in> set (normalizeStops ss) \<Longrightarrow> s_uuid s \<noteq> [] \<and> trim (s_uuid s) = s_uuid s"
  using normalize_from_uuids [of s "{}" ss] by (auto simp: normalizeStops_def trim_idem)

lemma normalizeStops_covers:
  "raw \<in> set ss \<Longrightarrow> trim (s_uuid raw) \<noteq> [] \<Longrightarrow>
     trim (s_uuid raw) \<in> s_uuid ` set (normalizeStops ss)"
  using normalize_from_covers [of raw ss "{}"] by (simp add: normalizeStops_def)

lemma resolve_stops_uuids:
  "map v_uuid (resolve_stops ds ss) = filter (\<lambda>u. is_region (ds u)) (map s_uuid ss)"
  by (induction ss) (auto simp: is_region_def split: option.splits document.splits)

lemma resolve_stops_Cons:
  "resolve_stops ds (s # rest) =
     (if is_region (ds (s_uuid s))
      then \<lparr>v_doc = (case ds (s_uuid s) of Some (RegionDocument d) \<Rightarrow> d),
            v_uuid = s_uuid s,
            v_label = (if s_label s \<noteq> [] then s_label s
                       else r_name (case ds (s_uuid s) of Some (RegionDocument d) \<Rightarrow> d))\<rparr>
           # resolve_stops ds rest
      else resolve_stops ds rest)"
  by (auto simp: is_region_def split: option.splits document.splits)

lemma resolve_stops_entry:
  "r \<in> set (resolve_stops ds ss) \<Longrightarrow>
     ds (v_uuid r) = Some (RegionDocument (v_doc r))
     \<and> (\<exists>s \<in> set ss. v_uuid r = s_uuid s
           \<and> v_label r = (if s_label s \<noteq> [] then s_label s else r_name (v_doc r)))"
proof (induction ss)
  case Nil
  then show ?case by simp
next
  case (Cons x ss)
  show ?case
  proof (cases "r \<in> set (resolve_stops ds ss)")
    case True
    then show ?thesis using Cons.IH by auto
  next
    case False
    then obtain d where "ds (s_uuid x) = Some (RegionDocument d)"
      and "r = \<lparr>v_doc = d, v_uuid = s_uuid x,
                v_label = (if s_label x \<noteq> [] then s_label x else r_name d)\<rparr>"
      using Cons.prems by (auto split: option.splits document.splits)
    then show ?thesis by simp
  qed
qed

lemma resolve_stops_blank:
  "r \<in> set (resolve_stops ds ss) \<Longrightarrow> v_label r = [] \<Longrightarrow> r_name (v_doc r) = []"
  using resolve_stops_entry [of r ds ss] by (auto split: if_splits)

lemma resolve_stops_distinct:
  "distinct (map s_uuid ss) \<Longrightarrow> distinct (map v_uuid (resolve_stops ds ss))"
  by (simp add: resolve_stops_uuids)

lemma resolve_stops_length: "length (resolve_stops ds ss) \<le> length ss"
  by (induction ss) (auto split: option.splits document.splits)

lemma resolve_stops_all:
  "length (resolve_stops ds ss) = length ss \<Longrightarrow> s \<in> set ss \<Longrightarrow> is_region (ds (s_uuid s))"
proof (induction ss)
  case Nil
  then show ?case by simp
next
  case (Cons x ss)
  have le: "length (resolve_stops ds ss) \<le> length ss" by (rule resolve_stops_length)
  show ?case
  proof (cases "is_region (ds (s_uuid x))")
    case True
    then have "length (resolve_stops ds ss) = length ss"
      using Cons.prems(1) by (auto simp: is_region_def split: option.splits document.splits)
    then show ?thesis using Cons True by auto
  next
    case False
    then have "resolve_stops ds (x # ss) = resolve_stops ds ss"
      by (auto simp: is_region_def split: option.splits document.splits)
    then show ?thesis using Cons.prems(1) le by simp
  qed
qed

lemma cleaned_of_uuids [simp]: "map s_uuid (cleaned_of rs) = map v_uuid rs"
  by (simp add: cleaned_of_def)

lemma cleaned_of_length [simp]: "length (cleaned_of rs) = length rs"
  by (simp add: cleaned_of_def)

lemma findIndex_distinct:
  "distinct (map f xs) \<Longrightarrow> i < length xs \<Longrightarrow> findIndex (\<lambda>s. f s = f (xs ! i)) xs = int i"
proof (induction xs arbitrary: i)
  case Nil
  then show ?case by simp
next
  case (Cons x xs)
  show ?case
  proof (cases i)
    case 0
    then show ?thesis by simp
  next
    case (Suc j)
    then have j: "j < length xs" using Cons.prems by simp
    then have "f (xs ! j) \<in> f ` set xs" by simp
    then have "f x \<noteq> f (xs ! j)" using Cons.prems(1) by auto
    then show ?thesis using Cons.IH [OF _ j] Cons.prems(1) Suc by simp
  qed
qed

lemma sync_stops_Cons:
  "sync_stops e m c h (r # rest) ds =
     (fst (sync_stops e m c h rest (ds(v_uuid r \<mapsto> RegionDocument (fst (sync_stop e m c h r))))),
      snd (sync_stop e m c h r)
        @ snd (sync_stops e m c h rest (ds(v_uuid r \<mapsto> RegionDocument (fst (sync_stop e m c h r))))))"
  by (simp split: prod.splits)

lemma sync_stops_writes:
  "snd (sync_stops e m c h rs ds) = concat (map (\<lambda>r. snd (sync_stop e m c h r)) rs)"
  by (induction rs arbitrary: ds) (simp_all add: sync_stops_Cons del: sync_stops.simps(2))

lemma sync_stops_other:
  "u \<notin> v_uuid ` set rs \<Longrightarrow> fst (sync_stops e m c h rs ds) u = ds u"
  by (induction rs arbitrary: ds) (simp_all add: sync_stops_Cons del: sync_stops.simps(2))

lemma sync_stops_member:
  "distinct (map v_uuid rs) \<Longrightarrow> r \<in> set rs \<Longrightarrow>
     fst (sync_stops e m c h rs ds) (v_uuid r) = Some (RegionDocument (fst (sync_stop e m c h r)))"
proof (induction rs arbitrary: ds)
  case Nil
  then show ?case by simp
next
  case (Cons x rs)
  show ?case
  proof (cases "r = x")
    case True
    have "v_uuid x \<notin> v_uuid ` set rs" using Cons.prems(1) by simp
    then show ?thesis
      using True by (simp add: sync_stops_Cons sync_stops_other del: sync_stops.simps(2))
  next
    case False
    then show ?thesis
      using Cons by (simp add: sync_stops_Cons del: sync_stops.simps(2))
  qed
qed

lemma sync_run:
  assumes "links w e = Some m" and "e \<noteq> []"
    and "stops = normalizeStops (m_stops m)"
    and "rs = resolve_stops (docs w) stops" and "rs \<noteq> []"
    and "c = cleaned_of rs" and "h = home_of homeUuid m c"
  shows "syncElevatorNetwork True e homeUuid w =
     (w\<lparr>links := (if length rs \<noteq> length stops then (links w)(e \<mapsto> m\<lparr>m_stops := c\<rparr>)
                    else links w),
        docs := fst (sync_stops e m c h rs (docs w))\<rparr>,
      (if length rs \<noteq> length stops then [WriteLinks e c] else [])
        @ snd (sync_stops e m c h rs (docs w)))"
proof -
  have "stops \<noteq> []" using assms(4,5) by auto
  then show ?thesis
    using assms
    by (simp add: syncElevatorNetwork_def Let_def split_beta)
qed

lemma sync_stop_name [simp]: "r_name (fst (sync_stop e m c h r)) = desiredName_of e c r"
  by (simp add: sync_stop_def Let_def split_beta)

lemma sync_stop_flags [simp]: "r_flags (fst (sync_stop e m c h r)) = Some (nextFlags_of e m c h r)"
  by (simp add: sync_stop_def Let_def split_beta)

lemma decimal_digits: "decimal n \<noteq> [] \<and> list_all is_digit (decimal n)"
proof (induction n rule: decimal.induct)
  case (1 n)
  show ?case
  proof (cases "n < 10")
    case True
    then have "decimal n = [digit_char n]"
      using decimal.simps [of n] by simp
    then show ?thesis using digit_char_digit [OF True] by simp
  next
    case False
    then have last: "is_digit (digit_char (n mod 10))"
      by (intro digit_char_digit) simp
    have rest: "list_all is_digit (decimal (n div 10))"
      using 1 False by simp
    have "decimal n = decimal (n div 10) @ [digit_char (n mod 10)]"
      using False decimal.simps [of n] by simp
    then show ?thesis using last rest by simp
  qed
qed

lemma padStart2_shape:
  "2 \<le> length (padStart2 (decimal n)) \<and> list_all is_digit (padStart2 (decimal n))
   \<and> (n \<le> 99 \<longrightarrow> length (padStart2 (decimal n)) = 2)"
proof -
  have zero: "is_digit (CHR ''0'')" by (simp add: is_digit_def)
  have "2 \<le> length (padStart2 (decimal n))"
    by (simp add: padStart2_def)
  moreover have "list_all is_digit (padStart2 (decimal n))"
    using decimal_digits [of n] zero by (auto simp: padStart2_def list_all_iff)
  moreover have "length (padStart2 (decimal n)) = 2" if "n \<le> 99"
    using padStart2_decimal [of n] that by auto
  ultimately show ?thesis by blast
qed

lemma stop_name_after_sync:
  assumes "links w e = Some m" and "e \<noteq> []"
    and "c = cleaned_of (resolve_stops (docs w) (normalizeStops (m_stops m)))"
    and "i < length c"
  shows "floorNumber_of c (s_uuid (c ! i)) = int (length c) - int i
       \<and> (\<exists>d. docs (fst (syncElevatorNetwork True e homeUuid w)) (s_uuid (c ! i))
                 = Some (RegionDocument d)
              \<and> r_name d = formatElevatorRegionName e (int (length c) - int i) (s_label (c ! i)))"
proof -
  define rs where "rs = resolve_stops (docs w) (normalizeStops (m_stops m))"
  have c: "c = cleaned_of rs" using assms(3) rs_def by simp
  have i: "i < length rs" using assms(4) c by simp
  then have ne: "rs \<noteq> []" by auto
  have dist: "distinct (map v_uuid rs)"
    unfolding rs_def by (intro resolve_stops_distinct normalizeStops_distinct)
  then have distc: "distinct (map s_uuid c)" using c by simp
  have idx: "findIndex (\<lambda>s. s_uuid s = s_uuid (c ! i)) c = int i"
    using findIndex_distinct [OF distc assms(4)] .
  have floor: "floorNumber_of c (s_uuid (c ! i)) = int (length c) - int i"
    using idx by (simp add: floorNumber_of_def)
  have ci: "c ! i = \<lparr>s_uuid = v_uuid (rs ! i), s_label = v_label (rs ! i)\<rparr>"
    using i c by (simp add: cleaned_of_def)
  have mem: "rs ! i \<in> set rs" using i by simp
  have blank: "v_label (rs ! i) = [] \<Longrightarrow> r_name (v_doc (rs ! i)) = []"
    using resolve_stops_blank mem rs_def by blast
  have label: "stopLabel_of c (rs ! i) = s_label (c ! i)"
    using idx ci assms(4) blank by (auto simp: stopLabel_of_def Let_def)
  have name: "desiredName_of e c (rs ! i)
      = formatElevatorRegionName e (int (length c) - int i) (s_label (c ! i))"
    using floor label ci by (simp add: desiredName_of_def)
  have run: "docs (fst (syncElevatorNetwork True e homeUuid w))
      = fst (sync_stops e m c (home_of homeUuid m c) rs (docs w))"
    using sync_run [OF assms(1,2) refl rs_def ne c refl] by simp
  have "docs (fst (syncElevatorNetwork True e homeUuid w)) (s_uuid (c ! i))
      = Some (RegionDocument (fst (sync_stop e m c (home_of homeUuid m c) (rs ! i))))"
    using sync_stops_member [OF dist mem] run ci by simp
  then show ?thesis using floor name by simp
qed

text \<open>
  C4 (amended).  In a synced network whose cleaned stop list has \<open>n\<close> stops, the stop at
  index \<open>i\<close> gets floor number \<open>n - i\<close>, index 0 being the highest floor, and its document is
  named \<open>ELV <id> <floor> <label>\<close> with the floor in decimal digits, padded with a zero to
  two digits: exactly two digits up to floor 99, at least two in general.
\<close>

theorem floor_numbering:
  assumes "links w e = Some m" and "e \<noteq> []"
    and "c = cleaned_of (resolve_stops (docs w) (normalizeStops (m_stops m)))"
    and "i < length c" and "n = length c"
    and "w' = fst (syncElevatorNetwork True e homeUuid w)"
  shows "floorNumber_of c (s_uuid (c ! i)) = int n - int i
       \<and> (\<exists>d. docs w' (s_uuid (c ! i)) = Some (RegionDocument d)
              \<and> r_name d = formatElevatorRegionName e (int n - int i) (s_label (c ! i))
              \<and> r_name d = trim (''ELV '' @ trim e @ '' '' @ padStart2 (decimal (n - i)) @ '' ''
                               @ stripElevatorNamePrefix (trim (s_label (c ! i)))))
       \<and> 2 \<le> length (padStart2 (decimal (n - i)))
       \<and> list_all is_digit (padStart2 (decimal (n - i)))
       \<and> (n - i \<le> 99 \<longrightarrow> length (padStart2 (decimal (n - i))) = 2)"
proof -
  have pos: "nat (max 1 (if int n - int i = 0 then 1 else int n - int i)) = n - i"
    using assms(4,5) by auto
  have "formatElevatorRegionName e (int n - int i) (s_label (c ! i))
      = trim (''ELV '' @ trim e @ '' '' @ padStart2 (decimal (n - i)) @ '' ''
               @ stripElevatorNamePrefix (trim (s_label (c ! i))))"
    unfolding formatElevatorRegionName_def Let_def pos by simp
  then show ?thesis
    using stop_name_after_sync [OF assms(1,2,3,4), of homeUuid] padStart2_shape [of "n - i"]
      assms(5,6)
    by auto
qed

theorem floor_numbering_witness:
  "cleaned_of (resolve_stops (docs world_abc) (normalizeStops (m_stops (the (links world_abc ''e'')))))
     = [\<lparr>s_uuid = ''A'', s_label = ''Attic''\<rparr>, \<lparr>s_uuid = ''B'', s_label = ''Bar''\<rparr>,
        \<lparr>s_uuid = ''C'', s_label = ''Cellar''\<rparr>]
   \<and> floorNumber_of [\<lparr>s_uuid = ''A'', s_label = ''Attic''\<rparr>, \<lparr>s_uuid = ''B'', s_label = ''Bar''\<rparr>,
        \<lparr>s_uuid = ''C'', s_label = ''Cellar''\<rparr>] ''A'' = 3
   \<and> floorNumber_of [\<lparr>s_uuid = ''A'', s_label = ''Attic''\<rparr>, \<lparr>s_uuid = ''B'', s_label = ''Bar''\<rparr>,
        \<lparr>s_uuid = ''C'', s_label = ''Cellar''\<rparr>] ''B'' = 2
   \<and> floorNumber_of [\<lparr>s_uuid = ''A'', s_label = ''Attic''\<rparr>, \<lparr>s_uuid = ''B'', s_label = ''Bar''\<rparr>,
        \<lparr>s_uuid = ''C'', s_label = ''Cellar''\<rparr>] ''C'' = 1
   \<and> name_at (fst (resync world_abc)) ''A'' = Some ''ELV e 03 Attic''
   \<and> name_at (fst (resync world_abc)) ''B'' = Some ''ELV e 02 Bar''
   \<and> name_at (fst (resync world_abc)) ''C'' = Some ''ELV e 01 Cellar''"
proof -
  let ?m = "master_of
       [\<lparr>s_uuid = ''A'', s_label = ''Attic''\<rparr>, \<lparr>s_uuid = ''gone'', s_label = ''Lost''\<rparr>,
        \<lparr>s_uuid = ''B'', s_label = ''Bar''\<rparr>, \<lparr>s_uuid = ''C'', s_label = ''Cellar''\<rparr>]"
  let ?c = "[\<lparr>s_uuid = ''A'', s_label = ''Attic''\<rparr>, \<lparr>s_uuid = ''B'', s_label = ''Bar''\<rparr>,
        \<lparr>s_uuid = ''C'', s_label = ''Cellar''\<rparr>]"
  have m: "links world_abc ''e'' = Some ?m"
    by (simp add: world_abc_def)
  have e: "''e'' \<noteq> []" by simp
  have c: "?c = cleaned_of (resolve_stops (docs world_abc) (normalizeStops (m_stops ?m)))"
    by (simp add: world_abc_def master_of_def normalizeStops_def cleaned_of_def plain_region_def
        stripElevatorNamePrefix_def string_eval)
  have fmt: "formatElevatorRegionName ''e'' 3 ''Attic'' = ''ELV e 03 Attic''"
    "formatElevatorRegionName ''e'' 2 ''Bar'' = ''ELV e 02 Bar''"
    "formatElevatorRegionName ''e'' 1 ''Cellar'' = ''ELV e 01 Cellar''"
    by code_simp+
  note f0 = floor_numbering [OF m e c _ refl refl, of 0 "[]"]
  note f1 = floor_numbering [OF m e c _ refl refl, of 1 "[]"]
  note f2 = floor_numbering [OF m e c _ refl refl, of 2 "[]"]
  show ?thesis
    using f0 f1 f2 c [symmetric] m fmt
    by (auto simp: name_at_def resync_def)
qed

text \<open>
  C4 as stated fails for a network of a hundred stops: the top stop is floor 100, and its
  name carries three digits.
\<close>

theorem floor_100_counterexample:
  "length (cleaned_of (resolve_stops (docs world100) (normalizeStops (m_stops (master_of stops100)))))
     = 100
   \<and> floorNumber_of
       (cleaned_of (resolve_stops (docs world100) (normalizeStops (m_stops (master_of stops100)))))
       ''s0'' = 100
   \<and> name_at (fst (resync world100)) ''s0'' = Some ''ELV e 100 L''"
proof -
  define c where
    "c = cleaned_of (resolve_stops (docs world100) (normalizeStops (m_stops (master_of stops100))))"
  have m: "links world100 ''e'' = Some (master_of stops100)"
    by (simp add: world100_def)
  have e: "''e'' \<noteq> []" by simp
  have len: "length c = 100" and top: "c ! 0 = \<lparr>s_uuid = ''s0'', s_label = ''L''\<rparr>"
    unfolding c_def by code_simp+
  have i: "0 < length c" using len by simp
  have fmt: "formatElevatorRegionName ''e'' 100 ''L'' = ''ELV e 100 L''"
    by code_simp
  have "floorNumber_of c ''s0'' = 100
      \<and> name_at (fst (resync world100)) ''s0'' = Some ''ELV e 100 L''"
    using stop_name_after_sync [OF m e c_def i, of "[]"] len top fmt
    by (auto simp: name_at_def resync_def)
  then show ?thesis
    using len unfolding c_def by simp
qed

lemma levels_at_member:
  assumes "links w e = Some m" and "e \<noteq> []"
    and "rs = resolve_stops (docs w) (normalizeStops (m_stops m))" and "c = cleaned_of rs"
    and "r \<in> set rs"
  shows "levels_at (fst (syncElevatorNetwork True e homeUuid w)) (v_uuid r)
       = Some (filter (\<lambda>s. s_uuid s \<noteq> v_uuid r) c)"
proof -
  have ne: "rs \<noteq> []" using assms(5) by auto
  have dist: "distinct (map v_uuid rs)"
    unfolding assms(3) by (intro resolve_stops_distinct normalizeStops_distinct)
  have run: "docs (fst (syncElevatorNetwork True e homeUuid w))
      = fst (sync_stops e m c (home_of homeUuid m c) rs (docs w))"
    using sync_run [OF assms(1,2) refl assms(3) ne assms(4) refl] by simp
  show ?thesis
    using sync_stops_member [OF dist assms(5)]
    by (simp add: levels_at_def run nextFlags_of_def)
qed

lemma stale_stop_pruned:
  assumes "links w e = Some m" and "e \<noteq> []"
    and "rs = resolve_stops (docs w) (normalizeStops (m_stops m))" and "rs \<noteq> []"
    and "c = cleaned_of rs"
    and "raw \<in> set (m_stops m)" and "trim (s_uuid raw) \<noteq> []"
    and "\<not> is_region (docs w (trim (s_uuid raw)))"
  shows "links (fst (syncElevatorNetwork True e homeUuid w)) e = Some (m\<lparr>m_stops := c\<rparr>)
       \<and> trim (s_uuid raw) \<notin> s_uuid ` set c \<and> s_uuid raw \<notin> s_uuid ` set c"
proof -
  let ?stops = "normalizeStops (m_stops m)"
  let ?u = "trim (s_uuid raw)"
  obtain s where s: "s \<in> set ?stops" "s_uuid s = ?u"
    using normalizeStops_covers [OF assms(6,7)] by auto
  then have "length rs \<noteq> length ?stops"
    using resolve_stops_all [of "docs w" ?stops s] assms(3,8) by auto
  then have links: "links (fst (syncElevatorNetwork True e homeUuid w)) e = Some (m\<lparr>m_stops := c\<rparr>)"
    using sync_run [OF assms(1,2) refl assms(3,4,5) refl] by simp
  have uuids: "s_uuid ` set c = {u \<in> s_uuid ` set ?stops. is_region (docs w u)}"
  proof -
    have "map s_uuid c = filter (\<lambda>u. is_region (docs w u)) (map s_uuid ?stops)"
      using assms(3,5) by (simp add: resolve_stops_uuids)
    then have "set (map s_uuid c) = set (filter (\<lambda>u. is_region (docs w u)) (map s_uuid ?stops))"
      by simp
    then show ?thesis by auto
  qed
  have trimmed: "?u \<notin> s_uuid ` set c"
    using uuids assms(8) by auto
  have "s_uuid raw \<notin> s_uuid ` set c"
  proof
    assume "s_uuid raw \<in> s_uuid ` set c"
    then obtain t where "t \<in> set ?stops" "s_uuid t = s_uuid raw" "is_region (docs w (s_uuid raw))"
      using uuids by auto
    then have "?u = s_uuid raw"
      using normalizeStops_trimmed [of t "m_stops m"] by simp
    then show False using \<open>is_region (docs w (s_uuid raw))\<close> assms(8) by simp
  qed
  then show ?thesis using links trimmed by simp
qed

text \<open>
  C7.  After a run of \<open>syncElevatorNetwork\<close> by the GM in which at least one stop resolves,
  the \<open>levels\<close> flag of every resolved stop is the cleaned stop list without that stop; and
  a stored stop whose uuid no longer resolves to a region document is absent from the
  persisted stop list, which is now the cleaned list, and from the \<open>levels\<close> of every
  resolved stop.
\<close>

theorem levels_after_sync:
  assumes "links w e = Some m" and "e \<noteq> []"
    and "rs = resolve_stops (docs w) (normalizeStops (m_stops m))" and "rs \<noteq> []"
    and "c = cleaned_of rs"
    and "w' = fst (syncElevatorNetwork True e homeUuid w)"
  shows "(\<forall>r \<in> set rs. levels_at w' (v_uuid r) = Some (filter (\<lambda>s. s_uuid s \<noteq> v_uuid r) c))
       \<and> (\<forall>raw \<in> set (m_stops m).
            trim (s_uuid raw) \<noteq> [] \<and> \<not> is_region (docs w (trim (s_uuid raw))) \<longrightarrow>
              links w' e = Some (m\<lparr>m_stops := c\<rparr>)
            \<and> trim (s_uuid raw) \<notin> s_uuid ` set c \<and> s_uuid raw \<notin> s_uuid ` set c
            \<and> (\<forall>r \<in> set rs. \<forall>l. levels_at w' (v_uuid r) = Some l \<longrightarrow>
                  trim (s_uuid raw) \<notin> s_uuid ` set l \<and> s_uuid raw \<notin> s_uuid ` set l))"
proof -
  have levels: "levels_at w' (v_uuid r) = Some (filter (\<lambda>s. s_uuid s \<noteq> v_uuid r) c)"
    if "r \<in> set rs" for r
    using levels_at_member [OF assms(1,2,3,5) that] assms(6) by simp
  have stale: "links w' e = Some (m\<lparr>m_stops := c\<rparr>)
      \<and> trim (s_uuid raw) \<notin> s_uuid ` set c \<and> s_uuid raw \<notin> s_uuid ` set c
      \<and> (\<forall>r \<in> set rs. \<forall>l. levels_at w' (v_uuid r) = Some l \<longrightarrow>
            trim (s_uuid raw) \<notin> s_uuid ` set l \<and> s_uuid raw \<notin> s_uuid ` set l)"
    if "raw \<in> set (m_stops m)" "trim (s_uuid raw) \<noteq> []"
      "\<not> is_region (docs w (trim (s_uuid raw)))" for raw
  proof -
    note pruned = stale_stop_pruned [OF assms(1,2,3,4,5) that, of homeUuid]
    have "trim (s_uuid raw) \<notin> s_uuid ` set l \<and> s_uuid raw \<notin> s_uuid ` set l"
      if "r \<in> set rs" "levels_at w' (v_uuid r) = Some l" for r l
    proof -
      have "set l \<subseteq> set c" using levels [OF that(1)] that(2) by auto
      then show ?thesis using pruned by auto
    qed
    then show ?thesis using pruned assms(6) by blast
  qed
  show ?thesis using levels stale by blast
qed

theorem levels_after_sync_witness:
  "links world_abc ''e'' \<noteq> None
   \<and> \<not> is_region (docs world_abc ''gone'')
   \<and> map s_uuid (m_stops (the (links world_abc ''e''))) = [''A'', ''gone'', ''B'', ''C'']
   \<and> map s_uuid (m_stops (the (links (fst (resync world_abc)) ''e''))) = [''A'', ''B'', ''C'']
   \<and> map_option (map s_uuid) (levels_at (fst (resync world_abc)) ''A'') = Some [''B'', ''C'']
   \<and> map_option (map s_uuid) (levels_at (fst (resync world_abc)) ''B'') = Some [''A'', ''C'']
   \<and> map_option (map s_uuid) (levels_at (fst (resync world_abc)) ''C'') = Some [''A'', ''B'']"
proof -
  let ?gone = "\<lparr>s_uuid = ''gone'', s_label = ''Lost''\<rparr>"
  let ?m = "master_of
       [\<lparr>s_uuid = ''A'', s_label = ''Attic''\<rparr>, ?gone,
        \<lparr>s_uuid = ''B'', s_label = ''Bar''\<rparr>, \<lparr>s_uuid = ''C'', s_label = ''Cellar''\<rparr>]"
  let ?a = "\<lparr>v_doc = \<lparr>r_name = ''a'', r_flags = None, r_behaviors = []\<rparr>, v_uuid = ''A'',
             v_label = ''Attic''\<rparr>"
  let ?b = "\<lparr>v_doc = \<lparr>r_name = ''b'', r_flags = None, r_behaviors = []\<rparr>, v_uuid = ''B'',
             v_label = ''Bar''\<rparr>"
  let ?c = "\<lparr>v_doc = \<lparr>r_name = ''c'', r_flags = None, r_behaviors = []\<rparr>, v_uuid = ''C'',
             v_label = ''Cellar''\<rparr>"
  have m: "links world_abc ''e'' = Some ?m"
    by (simp add: world_abc_def)
  have e: "''e'' \<noteq> []" by simp
  have rs: "[?a, ?b, ?c] = resolve_stops (docs world_abc) (normalizeStops (m_stops ?m))"
    by (simp add: world_abc_def master_of_def normalizeStops_def plain_region_def
        stripElevatorNamePrefix_def string_eval)
  have ne: "[?a, ?b, ?c] \<noteq> []" by simp
  have gone: "\<not> is_region (docs world_abc ''gone'')" "trim ''gone'' = ''gone''"
    by (simp_all add: world_abc_def is_region_def string_eval)
  note inst = levels_after_sync [OF m e rs ne refl refl, of "[]"]
  from inst have levels: "levels_at (fst (resync world_abc)) (v_uuid r)
      = Some (filter (\<lambda>s. s_uuid s \<noteq> v_uuid r) (cleaned_of [?a, ?b, ?c]))"
    if "r \<in> set [?a, ?b, ?c]" for r
    using that unfolding resync_def by blast
  from inst have "?gone \<in> set (m_stops ?m) \<Longrightarrow>
      trim (s_uuid ?gone) \<noteq> [] \<and> \<not> is_region (docs world_abc (trim (s_uuid ?gone))) \<Longrightarrow>
      links (fst (resync world_abc)) ''e'' = Some (?m\<lparr>m_stops := cleaned_of [?a, ?b, ?c]\<rparr>)"
    unfolding resync_def by blast
  then have pruned: "links (fst (resync world_abc)) ''e''
      = Some (?m\<lparr>m_stops := cleaned_of [?a, ?b, ?c]\<rparr>)"
    using gone by (simp add: master_of_def)
  show ?thesis
    using m gone(1) pruned levels [of ?a] levels [of ?b] levels [of ?c]
    by (simp add: cleaned_of_def master_of_def)
qed

lemma restrict_from_noop:
  "snd (restrict_from a f i bs) = [] \<Longrightarrow> fst (restrict_from a f i bs) = bs"
  by (induction bs arbitrary: i) (auto simp: split_beta split: if_splits option.splits)

lemma restrict_noop:
  "snd (restrictTeleportBehaviorsToNetwork a h bs) = [] \<Longrightarrow>
     restrictTeleportBehaviorsToNetwork a h bs = (bs, [])"
  using restrict_from_noop [of a _ 0 bs]
  by (auto simp: restrictTeleportBehaviorsToNetwork_def Let_def prod_eq_iff)

lemma sync_stop_noop:
  assumes "r_name (v_doc r) = desiredName_of e c r"
    and "r_flags (v_doc r) = Some (nextFlags_of e m c h r)"
    and "snd (restrictTeleportBehaviorsToNetwork (s_uuid ` set c) h (r_behaviors (v_doc r))) = []"
  shows "sync_stop e m c h r = (v_doc r, [UpdateDocument (v_uuid r) (nextFlags_of e m c h r) None])"
  using assms restrict_noop [OF assms(3)]
  by (simp add: sync_stop_def Let_def)

lemma sync_stop_rename:
  "UpdateDocument u f (Some n) \<in> set (snd (sync_stop e m c h r)) \<Longrightarrow>
     u = v_uuid r \<and> n = desiredName_of e c r \<and> r_name (v_doc r) \<noteq> n"
  by (auto simp: sync_stop_def Let_def split_beta split: if_splits)

lemma sync_not_reached:
  "links w e = Some m \<Longrightarrow> resolve_stops (docs w) (normalizeStops (m_stops m)) = [] \<Longrightarrow>
     syncElevatorNetwork True e homeUuid w = (w, [])"
  by (simp add: syncElevatorNetwork_def Let_def)

lemma sync_stops_noop:
  assumes "\<And>r. r \<in> set rs \<Longrightarrow> sync_stop e m c h r = (v_doc r, [U r])"
    and "\<And>r. r \<in> set rs \<Longrightarrow> ds (v_uuid r) = Some (RegionDocument (v_doc r))"
  shows "sync_stops e m c h rs ds = (ds, map U rs)"
  using assms
proof (induction rs)
  case Nil
  then show ?case by simp
next
  case (Cons r rs)
  have "ds(v_uuid r \<mapsto> RegionDocument (v_doc r)) = ds"
    using Cons.prems(2) [of r] by (simp add: fun_upd_idem)
  moreover have "sync_stops e m c h rs ds = (ds, map U rs)"
    using Cons by simp
  ultimately show ?case
    using Cons.prems(1) [of r] by (simp add: sync_stops_Cons del: sync_stops.simps(2))
qed

lemma rename_only_when_different:
  assumes "links w e = Some m" and "e \<noteq> []"
    and "syncElevatorNetwork True e homeUuid w = (w', log)"
    and "UpdateDocument u f (Some n) \<in> set log"
  shows "name_at w u \<noteq> Some n \<and> name_at w' u = Some n"
proof -
  define rs where "rs = resolve_stops (docs w) (normalizeStops (m_stops m))"
  define c where "c = cleaned_of rs"
  define h where "h = home_of homeUuid m c"
  have ne: "rs \<noteq> []"
    using sync_not_reached [OF assms(1), of homeUuid] assms(3,4) rs_def by auto
  note run = sync_run [OF assms(1,2) refl rs_def ne c_def h_def]
  have "UpdateDocument u f (Some n) \<in> set (snd (sync_stops e m c h rs (docs w)))"
    using run assms(3,4) by (auto split: if_splits)
  then obtain r where r: "r \<in> set rs"
      "UpdateDocument u f (Some n) \<in> set (snd (sync_stop e m c h r))"
    by (auto simp: sync_stops_writes)
  then have facts: "u = v_uuid r" "n = desiredName_of e c r" "r_name (v_doc r) \<noteq> n"
    using sync_stop_rename by blast+
  have before: "docs w (v_uuid r) = Some (RegionDocument (v_doc r))"
    using resolve_stops_entry r(1) rs_def by blast
  have dist: "distinct (map v_uuid rs)"
    unfolding rs_def by (intro resolve_stops_distinct normalizeStops_distinct)
  have "docs w' = fst (sync_stops e m c h rs (docs w))"
    using run assms(3) by auto
  then have after: "docs w' (v_uuid r) = Some (RegionDocument (fst (sync_stop e m c h r)))"
    using sync_stops_member [OF dist r(1)] by simp
  show ?thesis
    using facts before after by (simp add: name_at_def)
qed

lemma consistent_noop:
  assumes "links w e = Some m" and "e \<noteq> []"
    and "rs = resolve_stops (docs w) (normalizeStops (m_stops m))"
    and "c = cleaned_of rs" and "h = home_of homeUuid m c"
    and "consistent e homeUuid w"
  shows "syncElevatorNetwork True e homeUuid w
       = (w, map (\<lambda>r. UpdateDocument (v_uuid r) (nextFlags_of e m c h r) None) rs)"
    and "list_all (\<lambda>r. flags_at w (v_uuid r) = Some (nextFlags_of e m c h r)) rs"
proof -
  have ne: "rs \<noteq> []" and full: "length rs = length (normalizeStops (m_stops m))"
    and each: "\<And>r. r \<in> set rs \<Longrightarrow>
        r_name (v_doc r) = desiredName_of e c r
        \<and> r_flags (v_doc r) = Some (nextFlags_of e m c h r)
        \<and> snd (restrictTeleportBehaviorsToNetwork (s_uuid ` set c) h (r_behaviors (v_doc r))) = []"
    using assms by (auto simp: consistent_def Let_def list_all_iff)
  have stored: "docs w (v_uuid r) = Some (RegionDocument (v_doc r))" if "r \<in> set rs" for r
    using resolve_stops_entry that assms(3) by blast
  have step: "sync_stop e m c h r
      = (v_doc r, [UpdateDocument (v_uuid r) (nextFlags_of e m c h r) None])"
    if "r \<in> set rs" for r
    using each [OF that] by (intro sync_stop_noop) simp_all
  have loop: "sync_stops e m c h rs (docs w)
      = (docs w, map (\<lambda>r. UpdateDocument (v_uuid r) (nextFlags_of e m c h r) None) rs)"
    using step stored by (rule sync_stops_noop)
  show "syncElevatorNetwork True e homeUuid w
       = (w, map (\<lambda>r. UpdateDocument (v_uuid r) (nextFlags_of e m c h r) None) rs)"
    using sync_run [OF assms(1,2) refl assms(3) ne assms(4,5)] full loop by simp
  show "list_all (\<lambda>r. flags_at w (v_uuid r) = Some (nextFlags_of e m c h r)) rs"
    using each stored by (simp add: list_all_iff flags_at_def)
qed

lemma restrict_from_length: "length (fst (restrict_from a f i bs)) = length bs"
  by (induction bs arbitrary: i) (auto simp: split_beta split: option.splits)

lemma restrict_from_idem:
  "(\<And>fb. f = Some fb \<Longrightarrow> fb \<in> a) \<Longrightarrow>
     snd (restrict_from a f j (fst (restrict_from a f i bs))) = []"
  by (induction bs arbitrary: i j) (auto simp: split_beta split: option.splits)

lemma restrict_idem:
  "snd (restrictTeleportBehaviorsToNetwork a h (fst (restrictTeleportBehaviorsToNetwork a h bs))) = []"
proof (cases "bs = []")
  case True
  then show ?thesis by (simp add: restrictTeleportBehaviorsToNetwork_def)
next
  case False
  let ?f = "if h \<noteq> [] \<and> h \<in> a then Some h else None"
  have "fst (restrict_from a ?f 0 bs) \<noteq> []"
    using False restrict_from_length [of a ?f 0 bs] by (metis length_0_conv)
  moreover have "snd (restrict_from a ?f 0 (fst (restrict_from a ?f 0 bs))) = []"
    by (rule restrict_from_idem) (auto split: if_splits)
  ultimately show ?thesis
    using False by (simp add: restrictTeleportBehaviorsToNetwork_def Let_def)
qed

lemma findIndex_found:
  "\<exists>x \<in> set xs. P x \<Longrightarrow>
     0 \<le> findIndex P xs \<and> findIndex P xs < int (length xs) \<and> P (xs ! nat (findIndex P xs))"
proof (induction xs)
  case Nil
  then show ?case by simp
next
  case (Cons x xs)
  show ?case
  proof (cases "P x")
    case True
    then show ?thesis by simp
  next
    case False
    then have "\<exists>y \<in> set xs. P y" using Cons.prems by auto
    then have ih: "0 \<le> findIndex P xs" "findIndex P xs < int (length xs)"
        "P (xs ! nat (findIndex P xs))"
      using Cons.IH by auto
    then have "nat (findIndex P xs + 1) = Suc (nat (findIndex P xs))" by simp
    then show ?thesis using False ih by (simp add: Let_def)
  qed
qed

lemma stopLabel_labelled:
  assumes "v_uuid r \<in> s_uuid ` set c" and "\<forall>s \<in> set c. s_label s \<noteq> []"
    and "v_uuid r' = v_uuid r"
  shows "stopLabel_of c r' = stopLabel_of c r"
proof -
  let ?i = "findIndex (\<lambda>s. s_uuid s = v_uuid r) c"
  have "\<exists>x \<in> set c. s_uuid x = v_uuid r" using assms(1) by auto
  then have i: "0 \<le> ?i" "?i < int (length c)"
    using findIndex_found [of c "\<lambda>s. s_uuid s = v_uuid r"] by auto
  then have "c ! nat ?i \<in> set c" by simp
  then have "s_label (c ! nat ?i) \<noteq> []" using assms(2) by blast
  then show ?thesis using i assms(3) by (simp add: stopLabel_of_def Let_def)
qed

lemma resolve_stops_labelled:
  "\<forall>s \<in> set ss. is_region (ds (s_uuid s)) \<and> s_label s \<noteq> [] \<Longrightarrow>
     cleaned_of (resolve_stops ds ss) = ss \<and> length (resolve_stops ds ss) = length ss"
  by (induction ss) (auto simp: resolve_stops_Cons cleaned_of_def simp del: resolve_stops.simps(2))


lemma document_updates_flags_only:
  "document_updates (map (\<lambda>r. UpdateDocument (v_uuid r) (F r) None) rs)
     = map (\<lambda>r. (v_uuid r, None)) rs"
  by (induction rs) (simp_all add: document_updates_def)

lemma other_writes_flags_only:
  "other_writes (map (\<lambda>r. UpdateDocument (v_uuid r) (F r) n) rs) = []"
  by (induction rs) (simp_all add: other_writes_def)

lemma sync_stop_behaviors:
  "r_behaviors (fst (sync_stop e m c h r))
     = fst (restrictTeleportBehaviorsToNetwork (s_uuid ` set c) h (r_behaviors (v_doc r)))"
  by (simp add: sync_stop_def Let_def split_beta)

lemma first_run_consistent:
  assumes m: "links w e = Some m" and e: "e \<noteq> []"
    and stops: "stops = normalizeStops (m_stops m)" "stops \<noteq> []"
    and all: "\<forall>s \<in> set stops. is_region (docs w (s_uuid s)) \<and> s_label s \<noteq> []"
    and w1: "w1 = fst (syncElevatorNetwork True e homeUuid w)"
  shows "consistent e homeUuid w1" and "links w1 e = Some m"
    and "cleaned_of (resolve_stops (docs w1) stops) = stops"
proof -
  define rs where "rs = resolve_stops (docs w) stops"
  define h where "h = home_of homeUuid m stops"
  have c: "cleaned_of rs = stops" and len: "length rs = length stops"
    using resolve_stops_labelled [OF all] rs_def by simp_all
  have ne: "rs \<noteq> []" using len stops(2) by auto
  have dist: "distinct (map v_uuid rs)"
    unfolding rs_def stops(1) by (intro resolve_stops_distinct normalizeStops_distinct)
  have uuids: "map v_uuid rs = map s_uuid stops"
    using c cleaned_of_uuids [of rs] by simp
  note run = sync_run [OF m e stops(1) rs_def ne c [symmetric] h_def]
  have links1: "links w1 e = Some m"
    using run w1 len m by simp
  have docs1: "docs w1 = fst (sync_stops e m stops h rs (docs w))"
    using run w1 by simp
  have after: "docs w1 (v_uuid r) = Some (RegionDocument (fst (sync_stop e m stops h r)))"
    if "r \<in> set rs" for r
    using sync_stops_member [OF dist that] docs1 by simp
  have all1: "\<forall>s \<in> set stops. is_region (docs w1 (s_uuid s)) \<and> s_label s \<noteq> []"
  proof
    fix s assume s: "s \<in> set stops"
    then have "s_uuid s \<in> set (map v_uuid rs)" using uuids by simp
    then obtain r where "r \<in> set rs" "v_uuid r = s_uuid s" by auto
    then have "is_region (docs w1 (s_uuid s))"
      using after [of r] by (simp add: is_region_def)
    then show "is_region (docs w1 (s_uuid s)) \<and> s_label s \<noteq> []" using all s by blast
  qed
  define rs1 where "rs1 = resolve_stops (docs w1) stops"
  have c1: "cleaned_of rs1 = stops" and len1: "length rs1 = length stops"
    using resolve_stops_labelled [OF all1] rs1_def by simp_all
  have labelled: "\<forall>s \<in> set stops. s_label s \<noteq> []" using all by blast
  have each: "r_name (v_doc r1) = desiredName_of e stops r1
      \<and> r_flags (v_doc r1) = Some (nextFlags_of e m stops h r1)
      \<and> snd (restrictTeleportBehaviorsToNetwork (s_uuid ` set stops) h
               (r_behaviors (v_doc r1))) = []"
    if r1: "r1 \<in> set rs1" for r1
  proof -
    have stored: "docs w1 (v_uuid r1) = Some (RegionDocument (v_doc r1))"
      and known: "v_uuid r1 \<in> s_uuid ` set stops"
      using resolve_stops_entry [OF r1 [unfolded rs1_def]] by auto
    then have "v_uuid r1 \<in> set (map v_uuid rs)" using uuids by simp
    then obtain r where r: "r \<in> set rs" "v_uuid r = v_uuid r1" by auto
    have doc: "v_doc r1 = fst (sync_stop e m stops h r)"
      using after [OF r(1)] stored r(2) by simp
    have "v_uuid r \<in> s_uuid ` set stops" using known r(2) by simp
    then have "stopLabel_of stops r1 = stopLabel_of stops r"
      using labelled r(2) [symmetric] by (rule stopLabel_labelled)
    then have name: "r_name (v_doc r1) = desiredName_of e stops r1"
      using r(2) by (simp add: doc desiredName_of_def)
    have flags: "r_flags (v_doc r1) = Some (nextFlags_of e m stops h r1)"
      using r(2) by (simp add: doc nextFlags_of_def)
    have "snd (restrictTeleportBehaviorsToNetwork (s_uuid ` set stops) h
               (r_behaviors (v_doc r1))) = []"
      by (simp add: doc sync_stop_behaviors restrict_idem)
    then show ?thesis using name flags by simp
  qed
  show "links w1 e = Some m" by (rule links1)
  show "cleaned_of (resolve_stops (docs w1) stops) = stops" using c1 rs1_def by simp
  have ne1: "rs1 \<noteq> []" using len1 stops(2) by auto
  show "consistent e homeUuid w1"
    unfolding consistent_def links1 option.case Let_def stops(1) [symmetric]
      rs1_def [symmetric] c1 h_def [symmetric]
    using ne1 len1 each by (simp add: list_all_iff)
qed

text \<open>
  C6 (amended).  Take a registry entry whose normalized stops all resolve and all carry a
  label, and run the sync twice.  The second run leaves the world exactly as the first run
  left it: it writes neither the registry nor a behaviour nor a display name.  It still
  calls \<open>doc.update\<close> once for every stop, with the flags that the stop already has.  And
  the first run, like every run, puts a name into an update only when it differs from the
  name the region has.
\<close>

theorem resync_idempotent:
  assumes "links w e = Some m" and "e \<noteq> []"
    and "stops = normalizeStops (m_stops m)" and "stops \<noteq> []"
    and "\<forall>s \<in> set stops. is_region (docs w (s_uuid s)) \<and> s_label s \<noteq> []"
    and "syncElevatorNetwork True e homeUuid w = (w1, log1)"
    and "syncElevatorNetwork True e homeUuid w1 = (w2, log2)"
  shows "w2 = w1
       \<and> other_writes log2 = []
       \<and> document_updates log2 = map (\<lambda>s. (s_uuid s, None)) stops
       \<and> (\<forall>u f n. UpdateDocument u f n \<in> set log2 \<longrightarrow> flags_at w1 u = Some f)
       \<and> (\<forall>u f n. UpdateDocument u f (Some n) \<in> set log1 \<longrightarrow>
             name_at w u \<noteq> Some n \<and> name_at w1 u = Some n)"
proof -
  have w1: "w1 = fst (syncElevatorNetwork True e homeUuid w)"
    using assms(6) by simp
  note first = first_run_consistent [OF assms(1,2,3,4,5) w1]
  define rs1 where "rs1 = resolve_stops (docs w1) (normalizeStops (m_stops m))"
  have c1: "cleaned_of rs1 = stops" using first(3) rs1_def assms(3) by simp
  note second = consistent_noop [OF first(2) assms(2) rs1_def refl refl first(1)]
  have log2: "log2 = map (\<lambda>r. UpdateDocument (v_uuid r)
        (nextFlags_of e m (cleaned_of rs1) (home_of homeUuid m (cleaned_of rs1)) r) None) rs1"
    and same: "w2 = w1"
    using second(1) assms(7) by simp_all
  have quiet: "other_writes log2 = []"
    unfolding log2 by (rule other_writes_flags_only)
  have "document_updates log2 = map (\<lambda>r. (v_uuid r, None)) rs1"
    unfolding log2 by (rule document_updates_flags_only)
  also have "\<dots> = map (\<lambda>u. (u, None)) (map v_uuid rs1)" by (simp add: comp_def)
  also have "map v_uuid rs1 = map s_uuid stops"
    using c1 cleaned_of_uuids [of rs1] by simp
  finally have updates: "document_updates log2 = map (\<lambda>s. (s_uuid s, None)) stops"
    by (simp add: comp_def)
  have stored: "flags_at w1 u = Some f" if "UpdateDocument u f n \<in> set log2" for u f n
    using that second(2) unfolding log2 by (auto simp: list_all_iff)
  have guard: "name_at w u \<noteq> Some n \<and> name_at w1 u = Some n"
    if "UpdateDocument u f (Some n) \<in> set log1" for u f n
    using rename_only_when_different [OF assms(1,2,6) that] .
  show ?thesis using same quiet updates stored guard by blast
qed

theorem resync_idempotent_witness:
  "normalizeStops (m_stops (the (links world_labelled ''e'')))
     = [\<lparr>s_uuid = ''A'', s_label = ''Attic''\<rparr>, \<lparr>s_uuid = ''B'', s_label = ''Bar''\<rparr>,
        \<lparr>s_uuid = ''C'', s_label = ''Cellar''\<rparr>]
   \<and> document_updates (snd (resync world_labelled))
       = [(''A'', Some ''ELV e 03 Attic''), (''B'', Some ''ELV e 02 Bar''),
          (''C'', Some ''ELV e 01 Cellar'')]
   \<and> fst (resync (fst (resync world_labelled))) = fst (resync world_labelled)
   \<and> other_writes (snd (resync (fst (resync world_labelled)))) = []
   \<and> document_updates (snd (resync (fst (resync world_labelled))))
       = [(''A'', None), (''B'', None), (''C'', None)]"
proof -
  let ?stops = "[\<lparr>s_uuid = ''A'', s_label = ''Attic''\<rparr>, \<lparr>s_uuid = ''B'', s_label = ''Bar''\<rparr>,
        \<lparr>s_uuid = ''C'', s_label = ''Cellar''\<rparr>]"
  have m: "links world_labelled ''e'' = Some (master_of ?stops)"
    by (simp add: world_labelled_def)
  have e: "''e'' \<noteq> []" by simp
  have stops: "?stops = normalizeStops (m_stops (master_of ?stops))"
    by code_simp
  have ne: "?stops \<noteq> []" by simp
  have all: "\<forall>s \<in> set ?stops. is_region (docs world_labelled (s_uuid s)) \<and> s_label s \<noteq> []"
    by (simp add: world_labelled_def plain_region_def is_region_def)
  have first: "document_updates (snd (resync world_labelled))
       = [(''A'', Some ''ELV e 03 Attic''), (''B'', Some ''ELV e 02 Bar''),
          (''C'', Some ''ELV e 01 Cellar'')]"
    by code_simp
  note twice = resync_idempotent [OF m e stops ne all surjective_pairing surjective_pairing,
      of "[]", unfolded resync_def [symmetric]]
  have same: "fst (resync (fst (resync world_labelled))) = fst (resync world_labelled)"
    and quiet: "other_writes (snd (resync (fst (resync world_labelled)))) = []"
    and updates: "document_updates (snd (resync (fst (resync world_labelled))))
        = map (\<lambda>s. (s_uuid s, None)) ?stops"
    using twice by blast+
  show ?thesis
    using m stops [symmetric] first same quiet updates by simp
qed

text \<open>
  C6 as stated fails.  With stops stored without labels, the second run on the unchanged
  registry entry writes flags that differ from those of the first run: the sibling labels
  now come from the names that the first run wrote.  And the third run, which finds
  nothing to change, still issues a document update for every stop.
\<close>

theorem resync_writes_counterexample:
  "levels_at (fst (resync world_unlabelled)) ''A'' = Some [\<lparr>s_uuid = ''B'', s_label = ''Lobby''\<rparr>]
   \<and> levels_at (fst (resync (fst (resync world_unlabelled)))) ''A''
       = Some [\<lparr>s_uuid = ''B'', s_label = ''ELV e 01 Lobby''\<rparr>]
   \<and> document_updates (snd (resync (fst (resync world_unlabelled))))
       = [(''A'', None), (''B'', None)]
   \<and> levels_at (fst (resync (fst (resync (fst (resync world_unlabelled)))))) ''A''
       = Some [\<lparr>s_uuid = ''B'', s_label = ''ELV e 01 Lobby''\<rparr>]
   \<and> document_updates (snd (resync (fst (resync (fst (resync world_unlabelled))))))
       = [(''A'', None), (''B'', None)]"
  by code_simp

end
